theory Spec2Isabelle
  imports Complex_Main "HOL-Library.Word" "HOL-Library.Multiset"
    "HOL-Library.Char_ord" "HOL-Library.List_Lexorder"
begin

section \<open>Device selection (benchmark cell and live-inference cell)\<close>

text \<open>
  Both cells compute
  \<^verbatim>\<open>device = "MULTI:CPU,GPU" if "GPU" in ie.available_devices else "CPU"\<close>.
  The list of available devices is what the Inference Engine reports.
\<close>

definition select_device :: "string list \<Rightarrow> string" where
  "select_device available_devices =
     (if ''GPU'' \<in> set available_devices then ''MULTI:CPU,GPU'' else ''CPU'')"

section \<open>Paths, the case directory and the data-preparation cell\<close>

text \<open>
  A \<^verbatim>\<open>pathlib\<close> path is the list of its parts; \<^verbatim>\<open>Path.__lt__\<close> compares the
  part lists, and Python compares lists and strings lexicographically, which is the order
  the list and character instances give. \<open>path_str\<close> is \<^verbatim>\<open>str(path)\<close> on POSIX.
\<close>

type_synonym path = "string list"

definition path_str :: "path \<Rightarrow> string" where
  "path_str p =
     (case p of [] \<Rightarrow> ''.'' | x # xs \<Rightarrow> foldl (\<lambda>acc part. acc @ ''/'' @ part) x xs)"








text \<open>
  The file system below the working directory: a map from paths to the kind of node found
  there. The working directory itself, the empty path, always is a directory. The contents
  of files are not represented.
\<close>

datatype node = File | Dir

type_synonym filesystem = "path \<rightharpoonup> node"

definition node_at :: "filesystem \<Rightarrow> path \<Rightarrow> node option" where
  "node_at fs p = (if p = [] then Some Dir else fs p)"

text \<open>\<^verbatim>\<open>Path.exists\<close> and \<^verbatim>\<open>os.path.exists\<close>; \<^verbatim>\<open>os.path.isdir\<close>.\<close>

definition path_exists :: "filesystem \<Rightarrow> path \<Rightarrow> bool" where
  "path_exists fs p \<longleftrightarrow> node_at fs p \<noteq> None"



text \<open>
  The system calls behind the cell, with the exceptions they raise (all of them
  subclasses of \<^verbatim>\<open>OSError\<close>): \<^verbatim>\<open>os.mkdir\<close>, \<^verbatim>\<open>os.makedirs\<close> (which creates the missing
  ancestors first and passes over a \<^verbatim>\<open>FileExistsError\<close> among them),
  \<^verbatim>\<open>open(path, "wb")\<close> and \<^verbatim>\<open>os.remove\<close>.
\<close>

datatype os_error = FileExistsError | FileNotFoundError | NotADirectoryError | IsADirectoryError

definition mkdir :: "path \<Rightarrow> filesystem \<Rightarrow> os_error + filesystem" where
  "mkdir p fs =
     (case node_at fs (butlast p) of
        None \<Rightarrow> Inl FileNotFoundError
      | Some File \<Rightarrow> Inl NotADirectoryError
      | Some Dir \<Rightarrow> if path_exists fs p then Inl FileExistsError else Inr (fs(p \<mapsto> Dir)))"

function makedirs :: "path \<Rightarrow> filesystem \<Rightarrow> os_error + filesystem" where
  "makedirs p fs =
     (if butlast p \<noteq> [] \<and> \<not> path_exists fs (butlast p) then
        (case makedirs (butlast p) fs of
           Inl FileExistsError \<Rightarrow> mkdir p fs
         | Inl e \<Rightarrow> Inl e
         | Inr fs1 \<Rightarrow> mkdir p fs1)
      else mkdir p fs)"
  by pat_completeness auto
termination
proof (relation "measure (\<lambda>(p, fs). length p)")
  fix p :: path and fs :: filesystem
  assume "butlast p \<noteq> [] \<and> \<not> path_exists fs (butlast p)"
  then have "p \<noteq> []" by auto
  then show "((butlast p, fs), (p, fs)) \<in> measure (\<lambda>(p, fs). length p)" by simp
qed simp

declare makedirs.simps [simp del]



text \<open>
  \<^verbatim>\<open>ZipFile.extractall(path)\<close> extracts the members in the order of the archive and stops
  at the first one that raises. For one member, \<^verbatim>\<open>_extract_member\<close> splits the name at
  \<^verbatim>\<open>/\<close>, drops the empty, \<^verbatim>\<open>.\<close> and \<^verbatim>\<open>..\<close> components, joins the rest to the target,
  creates the directory above when it does not exist, and then makes a directory (for a
  name that ends with \<^verbatim>\<open>/\<close>, unless the directory is there) or opens the file for
  writing. \<open>str_split\<close> is \<^verbatim>\<open>str.split\<close>.
\<close>

fun str_split :: "char \<Rightarrow> string \<Rightarrow> string list" where
  "str_split c [] = [[]]"
| "str_split c (x # xs) =
     (if x = c then [] # str_split c xs
      else (case str_split c xs of [] \<Rightarrow> [[x]] | y # ys \<Rightarrow> (x # y) # ys))"

definition member_path :: "string \<Rightarrow> path" where
  "member_path m = filter (\<lambda>x. x \<noteq> [] \<and> x \<noteq> ''.'' \<and> x \<noteq> ''..'') (str_split CHR ''/'' m)"

definition member_is_dir :: "string \<Rightarrow> bool" where
  "member_is_dir m \<longleftrightarrow> m \<noteq> [] \<and> last m = CHR ''/''"







section \<open>The Frame Source: \<^verbatim>\<open>sorted(case_path.glob("imaging_frames/*jpg"))\<close>\<close>

text \<open>
  \<open>listing\<close> is the directory listing of \<^verbatim>\<open>case_path/imaging_frames\<close> in the order
  the operating system returns it. The pattern \<^verbatim>\<open>*jpg\<close> matches every name that ends
  in \<^verbatim>\<open>jpg\<close>. Python's \<^verbatim>\<open>sorted\<close> is a stable sort, as \<^const>\<open>sort\<close> is.
\<close>

definition match_star_jpg :: "string \<Rightarrow> bool" where
  "match_star_jpg name = (3 \<le> length name \<and> drop (length name - 3) name = ''jpg'')"

definition glob_imaging_frames :: "path \<Rightarrow> string list \<Rightarrow> path list" where
  "glob_imaging_frames cp listing =
     map (\<lambda>name. cp @ [''imaging_frames'', name]) (filter match_star_jpg listing)"

definition image_paths :: "path \<Rightarrow> string list \<Rightarrow> path list" where
  "image_paths cp listing = sort (glob_imaging_frames cp listing)"

section \<open>NumPy arrays as views into a store\<close>

text \<open>
  An array object is a view: the buffer it reads and writes (\<open>base\<close>, an index into the
  store), an offset, a shape, the strides, counted in elements, and the flag that allows
  writing through it. Two arrays with the same
  \<open>base\<close> share memory. Floating-point entries are modelled as reals, \<^verbatim>\<open>uint8\<close> entries
  as 8-bit words. Strides are taken non-negative.
\<close>

datatype np_error = ValueError | AxisError

record ndarray =
  base :: nat
  offset :: nat
  shape :: "nat list"
  strides :: "nat list"
  writeable :: bool

type_synonym 'a store = "'a list list"

type_synonym 'a array_value = "nat list \<times> 'a list"

text \<open>The buffer positions of a view, in C (row-major) iteration order.\<close>

fun positions :: "nat \<Rightarrow> nat list \<Rightarrow> nat list \<Rightarrow> nat list" where
  "positions off [] st = [off]"
| "positions off (n # sh) (s # st) = concat (map (\<lambda>i. positions (off + i * s) sh st) [0..<n])"
| "positions off (n # sh) [] = []"

definition view_positions :: "ndarray \<Rightarrow> nat list" where
  "view_positions a = positions (offset a) (shape a) (strides a)"

definition flat_index :: "ndarray \<Rightarrow> nat list \<Rightarrow> nat" where
  "flat_index a idx = offset a + sum_list (map2 (*) idx (strides a))"

definition element :: "'a store \<Rightarrow> ndarray \<Rightarrow> nat list \<Rightarrow> 'a" where
  "element st a idx = st ! base a ! flat_index a idx"

definition contents :: "'a store \<Rightarrow> ndarray \<Rightarrow> 'a array_value" where
  "contents st a = (shape a, map (\<lambda>p. st ! base a ! p) (view_positions a))"

text \<open>
  An array of the store: its buffer exists, it has one stride per axis, and its elements
  lie inside the buffer.
\<close>

definition valid_view :: "'a store \<Rightarrow> ndarray \<Rightarrow> bool" where
  "valid_view st a \<longleftrightarrow>
     base a < length st \<and> length (strides a) = length (shape a) \<and>
     (\<forall>p \<in> set (view_positions a). p < length (st ! base a))"

text \<open>A freshly allocated array is C-contiguous, writeable and owns a new buffer.\<close>

fun c_strides :: "nat list \<Rightarrow> nat list" where
  "c_strides [] = []"
| "c_strides (n # sh) = prod_list sh # c_strides sh"

definition c_contiguous :: "nat \<Rightarrow> nat list \<Rightarrow> ndarray" where
  "c_contiguous b sh =
     \<lparr>base = b, offset = 0, shape = sh, strides = c_strides sh, writeable = True\<rparr>"

definition alloc :: "'a store \<Rightarrow> 'a array_value \<Rightarrow> ndarray \<times> 'a store" where
  "alloc st v = (c_contiguous (length st) (fst v), st @ [snd v])"

text \<open>What reading a freshly allocated array gives back.\<close>

definition fresh_contents :: "'a array_value \<Rightarrow> 'a array_value" where
  "fresh_contents v = (fst v, map (\<lambda>p. snd v ! p) (positions 0 (fst v) (c_strides (fst v))))"

text \<open>
  \<^verbatim>\<open>squeeze(0)\<close>, \<^verbatim>\<open>transpose(1, 2, 0)\<close>, \<^verbatim>\<open>transpose(..., (2, 0, 1))\<close> and
  \<^verbatim>\<open>expand_dims(..., 0)\<close> return views of the same buffer, writeable as their
  argument is. The stride of an axis of length one is never used.
\<close>

definition squeeze0 :: "ndarray \<Rightarrow> np_error + ndarray" where
  "squeeze0 a =
     (case (shape a, strides a) of
        (n # sh, s # st) \<Rightarrow>
          if n = 1 then Inr (a\<lparr>shape := sh, strides := st\<rparr>) else Inl ValueError
      | _ \<Rightarrow> Inl AxisError)"

definition transpose_120 :: "ndarray \<Rightarrow> np_error + ndarray" where
  "transpose_120 a =
     (case (shape a, strides a) of
        ([n0, n1, n2], [s0, s1, s2]) \<Rightarrow>
          Inr (a\<lparr>shape := [n1, n2, n0], strides := [s1, s2, s0]\<rparr>)
      | _ \<Rightarrow> Inl ValueError)"

definition transpose_201 :: "ndarray \<Rightarrow> np_error + ndarray" where
  "transpose_201 a =
     (case (shape a, strides a) of
        ([n0, n1, n2], [s0, s1, s2]) \<Rightarrow>
          Inr (a\<lparr>shape := [n2, n0, n1], strides := [s2, s0, s1]\<rparr>)
      | _ \<Rightarrow> Inl ValueError)"

definition expand_dims0 :: "ndarray \<Rightarrow> ndarray" where
  "expand_dims0 a = a\<lparr>shape := 1 # shape a, strides := 0 # strides a\<rparr>"

text \<open>
  An in-place elementwise operation (\<^verbatim>\<open>result *= 255\<close>, or an assignment through a
  boolean mask) computes the new elements from the elements the view had before, and then
  writes them through the view into the shared buffer: a buffer element that the view
  reaches more than once is still computed from its old content. On an array that is not
  writeable it raises \<^verbatim>\<open>ValueError\<close>.
\<close>

definition update_view :: "('a \<Rightarrow> 'a) \<Rightarrow> ndarray \<Rightarrow> 'a store \<Rightarrow> 'a store" where
  "update_view f a st =
     st[base a := fold (\<lambda>p b. b[p := f (st ! base a ! p)]) (view_positions a) (st ! base a)]"

definition map_inplace :: "('a \<Rightarrow> 'a) \<Rightarrow> ndarray \<Rightarrow> 'a store \<Rightarrow> np_error + 'a store" where
  "map_inplace f a st = (if writeable a then Inr (update_view f a st) else Inl ValueError)"

text \<open>
  Floating-point arithmetic. The entries of a float array are the reals its dtype
  represents, and a product is rounded to the dtype. \<open>round_to_format p emin emax\<close>
  is the rounding of the binary format with \<open>p\<close> significant bits and exponents from
  \<open>- emin\<close> to \<open>emax\<close>: to the nearest representable number, ties to the even
  significand, subnormal numbers included. A result of magnitude
  \<open>2 ^ (emax + 1)\<close> or more stands for an infinity; NaN is not represented.
\<close>

definition round_half_even :: "real \<Rightarrow> int" where
  "round_half_even x =
     (let n = \<lfloor>x\<rfloor>; d = x - of_int n
      in if d < 1 / 2 then n else if 1 / 2 < d then n + 1 else if even n then n else n + 1)"

fun ulp_search :: "nat \<Rightarrow> real \<Rightarrow> real \<Rightarrow> real \<Rightarrow> real" where
  "ulp_search 0 u m x = u"
| "ulp_search (Suc n) u m x = (if \<bar>x\<bar> < u * m then u else ulp_search n (2 * u) m x)"

definition round_to_format :: "nat \<Rightarrow> nat \<Rightarrow> nat \<Rightarrow> real \<Rightarrow> real" where
  "round_to_format p emin emax x =
     (let u = ulp_search (emin + emax) (1 / 2 ^ (emin + p - 1)) (2 ^ p) x
      in of_int (round_half_even (x / u)) * u)"

definition float32 :: "real \<Rightarrow> real" where
  "float32 = round_to_format 24 126 127"

definition float64 :: "real \<Rightarrow> real" where
  "float64 = round_to_format 53 1022 1023"

text \<open>\<^verbatim>\<open>astype\<close> copies into a fresh array; a float is cast to \<^verbatim>\<open>uint8\<close> by truncation.\<close>

definition trunc :: "real \<Rightarrow> int" where
  "trunc x = (if 0 \<le> x then \<lfloor>x\<rfloor> else \<lceil>x\<rceil>)"

definition astype_uint8 :: "ndarray \<Rightarrow> real store \<Rightarrow> 8 word array_value" where
  "astype_uint8 a st =
     (shape a, map (\<lambda>p. word_of_int (trunc (st ! base a ! p))) (view_positions a))"

definition astype_float32 :: "ndarray \<Rightarrow> 8 word store \<Rightarrow> real array_value" where
  "astype_float32 a st = (shape a, map (\<lambda>p. real (unat (st ! base a ! p))) (view_positions a))"

section \<open>Notebook 215: \<^verbatim>\<open>convert_result_to_image\<close>\<close>

text \<open>
  \<open>fl\<close> is the rounding of the dtype of \<open>result\<close> (\<open>float32\<close> for the network's
  output): \<^verbatim>\<open>result *= 255\<close> multiplies in that dtype. The comparisons, the
  assignments of 0 and 255 and the cast of a number between 0 and 255 are exact.
\<close>

definition convert_result_to_image ::
    "(real \<Rightarrow> real) \<Rightarrow> real store \<Rightarrow> ndarray \<Rightarrow> np_error + (8 word array_value \<times> real store)" where
  "convert_result_to_image fl st result =
     (case squeeze0 result of
        Inl e \<Rightarrow> Inl e
      | Inr r0 \<Rightarrow>
         (case transpose_120 r0 of
            Inl e \<Rightarrow> Inl e
          | Inr r \<Rightarrow>
             (case map_inplace (\<lambda>x. fl (x * 255)) r st of
                Inl e \<Rightarrow> Inl e
              | Inr st1 \<Rightarrow>
                 (case map_inplace (\<lambda>x. if x < 0 then 0 else x) r st1 of
                    Inl e \<Rightarrow> Inl e
                  | Inr st2 \<Rightarrow>
                     (case map_inplace (\<lambda>x. if x > 255 then 255 else x) r st2 of
                        Inl e \<Rightarrow> Inl e
                      | Inr st3 \<Rightarrow> Inr (astype_uint8 r st3, st3))))))"

text \<open>The store after the three in-place statements on a writeable view \<open>r\<close>.\<close>

definition clip_passes :: "(real \<Rightarrow> real) \<Rightarrow> ndarray \<Rightarrow> real store \<Rightarrow> real store" where
  "clip_passes fl r st =
     update_view (\<lambda>x. if x > 255 then 255 else x) r
       (update_view (\<lambda>x. if x < 0 then 0 else x) r (update_view (\<lambda>x. fl (x * 255)) r st))"

section \<open>Preprocessing (notebooks 215 and 002)\<close>

text \<open>
  \<^verbatim>\<open>cv2.cvtColor\<close> and \<^verbatim>\<open>cv2.resize\<close> belong to OpenCV. They are parameters here:
  each reads the contents of its source array and either raises or returns a new array,
  which is allocated in the store.
\<close>

datatype cv_error = CvError

definition bgr_to_gray ::
    "('a array_value \<Rightarrow> 'a array_value option) \<Rightarrow> 'a store \<Rightarrow> ndarray
       \<Rightarrow> (cv_error + ndarray) \<times> 'a store" where
  "bgr_to_gray cvtColor_BGR2GRAY st img =
     (case cvtColor_BGR2GRAY (contents st img) of
        None \<Rightarrow> (Inl CvError, st)
      | Some g \<Rightarrow> (let (a, st') = alloc st g in (Inr a, st')))"

definition cv2_resize ::
    "('a array_value \<Rightarrow> nat \<times> nat \<Rightarrow> 'a array_value option) \<Rightarrow> 'a store \<Rightarrow> ndarray
       \<Rightarrow> nat \<times> nat \<Rightarrow> (cv_error + ndarray) \<times> 'a store" where
  "cv2_resize resize st src dsize =
     (case resize (contents st src) dsize of
        None \<Rightarrow> (Inl CvError, st)
      | Some g \<Rightarrow> (let (a, st') = alloc st g in (Inr a, st')))"

text \<open>
  Notebook 215: \<^verbatim>\<open>gray_img = bgr_to_gray(img)\<close>,
  \<^verbatim>\<open>resized_img = cv2.resize(gray_img, (input_width, input_height))\<close>, then
  \<^verbatim>\<open>np.expand_dims(..., axis=0)\<close> twice.
\<close>

definition prepare_input_img ::
    "('a array_value \<Rightarrow> 'a array_value option)
       \<Rightarrow> ('a array_value \<Rightarrow> nat \<times> nat \<Rightarrow> 'a array_value option)
       \<Rightarrow> 'a store \<Rightarrow> ndarray \<Rightarrow> nat \<Rightarrow> nat \<Rightarrow> (cv_error + ndarray) \<times> 'a store" where
  "prepare_input_img cvtColor_BGR2GRAY resize st img input_width input_height =
     (case bgr_to_gray cvtColor_BGR2GRAY st img of
        (Inl e, st1) \<Rightarrow> (Inl e, st1)
      | (Inr gray_img, st1) \<Rightarrow>
         (case cv2_resize resize st1 gray_img (input_width, input_height) of
            (Inl e, st2) \<Rightarrow> (Inl e, st2)
          | (Inr resized_img, st2) \<Rightarrow>
              (Inr (expand_dims0 (expand_dims0 resized_img)), st2)))"

text \<open>
  Notebook 002:
  \<^verbatim>\<open>input_data = np.expand_dims(np.transpose(resized_image, (2, 0, 1)), 0).astype(np.float32)\<close>.
\<close>

definition input_data :: "8 word store \<Rightarrow> ndarray \<Rightarrow> np_error + real array_value" where
  "input_data st resized_image =
     (case transpose_201 resized_image of
        Inl e \<Rightarrow> Inl e
      | Inr t \<Rightarrow> Inr (astype_float32 (expand_dims0 t) st))"

section \<open>The live-inference pipeline\<close>

text \<open>
  Modelled from the spec: \<^verbatim>\<open>show_live_inference\<close> is imported from the notebook utilities,
  whose source is not available; only the call is. What follows is the
  Pipeline Scheduler of the specification (section 4.3): a slot table, the next Frame
  index of the Frame Source, the emit cursor, the reorder buffer and the render calls made
  so far. The order in which the engine completes requests is not constrained, so a run is
  driven by a list of events. What the engine answers for a Frame is a parameter.
\<close>

datatype outcome = Result | InferenceFailure

text \<open>
  Modelled from the spec: the two things that happen to a slot, "submit it to the
  Inference Engine on that slot" and "completion of slot S" (section 4.3).
\<close>

datatype event = Submit nat | Complete nat

text \<open>
  Modelled from the spec: a run is under way, or it was aborted with the index of the
  failing Frame (section 4.3, failure semantics).
\<close>

datatype run_status = Running | Aborted nat

text \<open>
  Modelled from the spec: the global scheduler state of section 4.3 (\<open>slots\<close> maps a slot
  id to the Frame index occupying it, \<open>cursor\<close> is the next Frame index to emit,
  \<open>buffer\<close> holds the Frame indices whose results wait for the cursor), the render calls
  in the order they were made, and the completed-frame count of the Throughput Reporter.
\<close>

record scheduler =
  slots :: "nat option list"
  next_frame :: nat
  cursor :: nat
  buffer :: "nat list"
  rendered :: "nat list"
  completed :: nat
  status :: run_status

text \<open>Modelled from the spec: initially all \<open>N\<close> slots are Idle and nothing is buffered.\<close>

definition init :: "nat \<Rightarrow> scheduler" where
  "init N = \<lparr>slots = replicate N None, next_frame = 0, cursor = 0, buffer = [],
             rendered = [], completed = 0, status = Running\<rparr>"

text \<open>Modelled from the spec: the Frame indices of the Submitted slots.\<close>

fun occupied :: "nat option list \<Rightarrow> nat list" where
  "occupied [] = []"
| "occupied (None # xs) = occupied xs"
| "occupied (Some k # xs) = k # occupied xs"

text \<open>
  Modelled from the spec: step 3 of section 4.3, "continue checking subsequent
  already-completed slots in index order". Buffered results are rendered while the cursor
  finds them; a buffered failure stops the run with the index of its Frame (fail-fast, the
  default policy).
\<close>

function flush ::
    "(nat \<Rightarrow> outcome) \<Rightarrow> nat \<Rightarrow> nat list \<Rightarrow> nat list \<Rightarrow> nat \<times> nat list \<times> nat list \<times> run_status" where
  "flush engine c buf rend =
     (if c \<in> set buf then
        (case engine c of
           Result \<Rightarrow> flush engine (Suc c) (remove1 c buf) (rend @ [c])
         | InferenceFailure \<Rightarrow> (c, buf, rend, Aborted c))
      else (c, buf, rend, Running))"
  by pat_completeness auto
termination
proof (relation "measure (\<lambda>(engine, c, buf, rend). length buf)")
  show "wf (measure (\<lambda>(engine, c, buf, rend). length buf))" by simp
next
  fix engine :: "nat \<Rightarrow> outcome" and c :: nat and buf rend :: "nat list"
  assume "c \<in> set buf"
  then have "0 < length buf" by (rule length_pos_if_in_set)
  then show "((engine, Suc c, remove1 c buf, rend @ [c]), (engine, c, buf, rend))
               \<in> measure (\<lambda>(engine, c, buf, rend). length buf)"
    using \<open>c \<in> set buf\<close> by (simp add: length_remove1)
qed

declare flush.simps [simp del]

text \<open>
  Modelled from the spec: steps 1 and 3 of section 4.3. \<open>Submit sl\<close> pulls the next Frame
  and binds it to the Idle slot \<open>sl\<close>; it is possible only while frames remain and the slot
  is Idle. \<open>Complete sl\<close> is the completion of the request in slot \<open>sl\<close>, bound to Frame
  \<open>k\<close>: at the cursor it is rendered (or, if the engine failed it, the run aborts with
  index \<open>k\<close>) and the buffer is flushed; ahead of the cursor it is buffered, failed or
  not, until the cursor reaches it. An aborted run takes no further step.
\<close>

definition step :: "(nat \<Rightarrow> outcome) \<Rightarrow> nat \<Rightarrow> scheduler \<Rightarrow> event \<Rightarrow> scheduler option" where
  "step engine M s ev =
     (case status s of
        Aborted _ \<Rightarrow> None
      | Running \<Rightarrow>
         (case ev of
            Submit sl \<Rightarrow>
              if next_frame s < M \<and> sl < length (slots s) \<and> slots s ! sl = None
              then Some (s\<lparr>slots := (slots s)[sl := Some (next_frame s)],
                           next_frame := Suc (next_frame s)\<rparr>)
              else None
          | Complete sl \<Rightarrow>
              if sl < length (slots s) then
                (case slots s ! sl of
                   None \<Rightarrow> None
                 | Some k \<Rightarrow>
                    if k = cursor s then
                      (case engine k of
                         InferenceFailure \<Rightarrow> Some (s\<lparr>status := Aborted k\<rparr>)
                       | Result \<Rightarrow>
                          (case flush engine (Suc k) (buffer s) (rendered s @ [k]) of
                             (c, buf, rend, st) \<Rightarrow>
                               Some (s\<lparr>slots := (slots s)[sl := None], cursor := c, buffer := buf,
                                        rendered := rend, completed := Suc (completed s),
                                        status := st\<rparr>)))
                    else if cursor s < k then
                      Some (s\<lparr>slots := (slots s)[sl := None], buffer := buffer s @ [k],
                               completed := Suc (completed s)\<rparr>)
                    else None)
              else None))"

text \<open>Modelled from the spec: a run is a list of events, each possible where it occurs.\<close>

fun run_events :: "(nat \<Rightarrow> outcome) \<Rightarrow> nat \<Rightarrow> scheduler \<Rightarrow> event list \<Rightarrow> scheduler option" where
  "run_events engine M s [] = Some s"
| "run_events engine M s (ev # evs) =
     (case step engine M s ev of None \<Rightarrow> None | Some s' \<Rightarrow> run_events engine M s' evs)"

text \<open>
  Modelled from the spec: step 4 of section 4.3, "terminate when the Frame Source is
  exhausted and all slots have returned to Idle and the buffered-result map is empty".
\<close>

definition finished :: "nat \<Rightarrow> scheduler \<Rightarrow> bool" where
  "finished M s \<longleftrightarrow>
     status s = Running \<and> next_frame s = M \<and> occupied (slots s) = [] \<and> buffer s = []"

text \<open>
  Modelled from the spec: the Throughput Reporter of section 4.5 divides the completed
  frame count by the elapsed wall time; where that division is not defined the report is
  "undefined" (section 8), never a failure.
\<close>

datatype throughput = Fps real | Undefined

definition throughput_report :: "nat \<Rightarrow> real \<Rightarrow> throughput" where
  "throughput_report frame_count elapsed =
     (if elapsed = 0 then Undefined else Fps (real frame_count / elapsed))"

text \<open>The invariant of the scheduler that the proofs below maintain.\<close>

definition sched_inv :: "(nat \<Rightarrow> outcome) \<Rightarrow> nat \<Rightarrow> nat \<Rightarrow> scheduler \<Rightarrow> bool" where
  "sched_inv engine N M s \<longleftrightarrow>
     length (slots s) = N \<and> next_frame s \<le> M \<and> rendered s = [0..<cursor s] \<and>
     mset (rendered s) + mset (buffer s) + mset (occupied (slots s)) = mset [0..<next_frame s] \<and>
     (status s = Running \<longrightarrow> cursor s \<notin> set (buffer s)) \<and>
     completed s = cursor s + length (buffer s) \<and>
     (\<forall>j<cursor s. engine j = Result) \<and>
     (\<forall>k. status s = Aborted k \<longrightarrow>
        k = cursor s \<and> engine k = InferenceFailure \<and> k < next_frame s)"

section \<open>Device selection: the theorem\<close>

text \<open>
  C5. The chosen device string is "MULTI:CPU,GPU" if and only if "GPU" is among the
  available devices, and it is "CPU" otherwise; so whenever anything other than "CPU"
  is chosen, "GPU" is available.
\<close>

theorem select_device_iff_gpu:
  "(select_device avail = ''MULTI:CPU,GPU'' \<longleftrightarrow> ''GPU'' \<in> set avail) \<and>
   (''GPU'' \<notin> set avail \<longrightarrow> select_device avail = ''CPU'') \<and>
   (select_device avail \<noteq> ''CPU'' \<longrightarrow> ''GPU'' \<in> set avail)"
  by (simp add: select_device_def)

theorem select_device_iff_gpu_witness:
  "''GPU'' \<notin> set [''CPU'', ''GNA''] \<and> select_device [''CPU'', ''GNA''] = ''CPU'' \<and>
   select_device [''CPU'', ''GPU''] \<noteq> ''CPU'' \<and> ''GPU'' \<in> set [''CPU'', ''GPU''] \<and>
   select_device [''CPU'', ''GPU''] = ''MULTI:CPU,GPU''"
  using select_device_iff_gpu [of "[''CPU'', ''GNA'']"]
    select_device_iff_gpu [of "[''CPU'', ''GPU'']"]
  by simp

section \<open>The Frame Source: sorted image paths\<close>

lemma append_le_cancel: "(zs @ xs \<le> zs @ ys) = (xs \<le> (ys :: 'a::linorder list))"
  by (induction zs) auto

lemma path_str_snoc: "p \<noteq> [] \<Longrightarrow> path_str (p @ [n]) = path_str p @ ''/'' @ n"
  by (cases p) (simp_all add: path_str_def)


lemma glob_path_le:
  "(cp @ [d, n1] \<le> cp @ [d, n2]) = (n1 \<le> (n2::string))"
  by (auto simp: append_le_cancel)

lemma glob_path_str: "path_str (cp @ [d, n]) = path_str (cp @ [d]) @ ''/'' @ n"
  using path_str_snoc [of "cp @ [d]" n] by simp

lemma glob_path_str_le:
  "(path_str (cp @ [d, n1]) \<le> path_str (cp @ [d, n2])) = (n1 \<le> n2)"
  by (simp add: glob_path_str append_le_cancel)

lemma set_image_paths:
  "set (image_paths cp listing) =
     {cp @ [''imaging_frames'', name] | name. name \<in> set listing \<and> match_star_jpg name}"
  by (auto simp: image_paths_def glob_imaging_frames_def)

lemma sorted_path_str_image_paths: "sorted (map path_str (image_paths cp listing))"
proof -
  have "sorted_wrt (\<le>) (image_paths cp listing)"
    by (simp add: image_paths_def)
  then have "sorted_wrt (\<lambda>p q. path_str p \<le> path_str q) (image_paths cp listing)"
  proof (rule sorted_wrt_mono_rel [rotated])
    fix p q
    assume "p \<in> set (image_paths cp listing)" "q \<in> set (image_paths cp listing)" "p \<le> q"
    then show "path_str p \<le> path_str q"
      by (auto simp: set_image_paths glob_path_le glob_path_str_le)
  qed
  then show ?thesis by (simp add: sorted_map)
qed

lemma distinct_glob: "distinct listing \<Longrightarrow> distinct (glob_imaging_frames cp listing)"
  by (simp add: glob_imaging_frames_def distinct_map inj_on_def)

text \<open>
  C8. The Frame Source fixes the Frame-index order by sorting the listing of the case
  directory: \<open>image_paths\<close> is a permutation of the files matching
  \<^verbatim>\<open>imaging_frames/*jpg\<close>, in non-decreasing order of path (as \<^verbatim>\<open>pathlib\<close>
  compares paths, and equally in lexicographic order of the path strings), and Frame
  index \<open>i\<close> is the \<open>i\<close>-th path of that order. File names in a directory are
  distinct, and then the order is strict.
\<close>

theorem image_paths_sorted_permutation:
  "mset (image_paths cp listing) = mset (glob_imaging_frames cp listing) \<and>
   sorted (image_paths cp listing) \<and>
   sorted (map path_str (image_paths cp listing)) \<and>
   (\<forall>i j. i \<le> j \<and> j < length (image_paths cp listing) \<longrightarrow>
      image_paths cp listing ! i \<le> image_paths cp listing ! j \<and>
      path_str (image_paths cp listing ! i) \<le> path_str (image_paths cp listing ! j)) \<and>
   (distinct listing \<longrightarrow>
      (\<forall>i j. i < j \<and> j < length (image_paths cp listing) \<longrightarrow>
         path_str (image_paths cp listing ! i) < path_str (image_paths cp listing ! j)))"
proof -
  let ?ps = "image_paths cp listing"
  have m: "mset ?ps = mset (glob_imaging_frames cp listing)"
    by (simp add: image_paths_def)
  have s: "sorted ?ps" by (simp add: image_paths_def)
  have t: "sorted (map path_str ?ps)" by (rule sorted_path_str_image_paths)
  have idx: "image_paths cp listing ! i \<le> image_paths cp listing ! j \<and>
      path_str (image_paths cp listing ! i) \<le> path_str (image_paths cp listing ! j)"
    if "i \<le> j" "j < length ?ps" for i j
  proof
    show "?ps ! i \<le> ?ps ! j" using s that by (simp add: sorted_nth_mono)
    have "map path_str ?ps ! i \<le> map path_str ?ps ! j"
      using t that by (intro sorted_nth_mono) simp_all
    then show "path_str (?ps ! i) \<le> path_str (?ps ! j)" using that by simp
  qed
  have strict: "path_str (?ps ! i) < path_str (?ps ! j)"
    if d: "distinct listing" and ij: "i < j" "j < length ?ps" for i j
  proof -
    have "distinct ?ps"
      using distinct_glob [OF d, of cp] by (simp add: image_paths_def)
    then have ne: "?ps ! i \<noteq> ?ps ! j" using ij by (simp add: nth_eq_iff_index_eq)
    have mem: "?ps ! i \<in> set ?ps" "?ps ! j \<in> set ?ps" using ij by simp_all
    then obtain n1 n2 where n: "?ps ! i = cp @ [''imaging_frames'', n1]"
      "?ps ! j = cp @ [''imaging_frames'', n2]"
      unfolding set_image_paths by blast
    have "path_str (?ps ! i) \<le> path_str (?ps ! j)" using idx [of i j] ij by simp
    moreover have "path_str (?ps ! i) \<noteq> path_str (?ps ! j)"
      using ne unfolding n by (simp add: glob_path_str)
    ultimately show ?thesis by simp
  qed
  show ?thesis using m s t idx strict by blast
qed

theorem image_paths_sorted_permutation_witness:
  "image_paths [''kits19_frames_1'', ''case_00117''] [''10.jpg'', ''2.jpg'', ''a.png'', ''1.jpg'']
     = [[''kits19_frames_1'', ''case_00117'', ''imaging_frames'', ''1.jpg''],
        [''kits19_frames_1'', ''case_00117'', ''imaging_frames'', ''10.jpg''],
        [''kits19_frames_1'', ''case_00117'', ''imaging_frames'', ''2.jpg'']] \<and>
   distinct [''10.jpg'', ''2.jpg'', ''a.png'', ''1.jpg''] \<and>
   path_str (image_paths [''kits19_frames_1'', ''case_00117''] [''10.jpg'', ''2.jpg'', ''a.png'', ''1.jpg''] ! 1)
     < path_str (image_paths [''kits19_frames_1'', ''case_00117''] [''10.jpg'', ''2.jpg'', ''a.png'', ''1.jpg''] ! 2)"
proof -
  have e: "image_paths [''kits19_frames_1'', ''case_00117''] [''10.jpg'', ''2.jpg'', ''a.png'', ''1.jpg'']
     = [[''kits19_frames_1'', ''case_00117'', ''imaging_frames'', ''1.jpg''],
        [''kits19_frames_1'', ''case_00117'', ''imaging_frames'', ''10.jpg''],
        [''kits19_frames_1'', ''case_00117'', ''imaging_frames'', ''2.jpg'']]"
    by code_simp
  have d: "distinct [''10.jpg'', ''2.jpg'', ''a.png'', ''1.jpg'']" by simp
  have l: "(1::nat) < 2 \<and> 2 < length (image_paths [''kits19_frames_1'', ''case_00117''] [''10.jpg'', ''2.jpg'', ''a.png'', ''1.jpg''])"
    by (simp add: e)
  show ?thesis
    using image_paths_sorted_permutation [of "[''kits19_frames_1'', ''case_00117'']" "[''10.jpg'', ''2.jpg'', ''a.png'', ''1.jpg'']"] e d l
    by blast
qed

section \<open>The data-preparation cell\<close>




lemma mkdir_Inr:
  "mkdir p fs = Inr fs' \<longleftrightarrow>
     p \<noteq> [] \<and> node_at fs (butlast p) = Some Dir \<and> fs p = None \<and> fs' = fs(p \<mapsto> Dir)"
  by (auto simp: mkdir_def path_exists_def node_at_def split: option.splits node.splits)












lemma makedirs_exists: "makedirs p fs = Inr fs' \<Longrightarrow> path_exists fs' p"
proof -
  assume a: "makedirs p fs = Inr fs'"
  have "\<exists>fs0. mkdir p fs0 = Inr fs'"
    using a by (subst (asm) makedirs.simps) (auto split: if_splits sum.splits os_error.splits)
  then show ?thesis by (auto simp: mkdir_Inr path_exists_def node_at_def)
qed








lemma example_parent_components:
  "member_path ''../case_00117/./imaging_frames//0.jpg'' = [''case_00117'', ''imaging_frames'', ''0.jpg''] \<and>
   member_path ''case_00117/'' = [''case_00117''] \<and> member_is_dir ''case_00117/'' \<and>
   \<not> member_is_dir ''case_00117/imaging_frames/0.jpg''"
  by code_simp




section \<open>Positions of views\<close>

lemma length_concat_map_upt:
  "(\<And>i. i < n \<Longrightarrow> length (f i) = m) \<Longrightarrow> length (concat (map f [0..<n])) = n * m"
  by (induction n) simp_all

lemma concat_map_upt_nth:
  "(\<And>i. i < n \<Longrightarrow> length (f i) = m) \<Longrightarrow> i < n \<Longrightarrow> j < m \<Longrightarrow>
     concat (map f [0..<n]) ! (i * m + j) = f i ! j"
proof (induction n)
  case 0
  then show ?case by simp
next
  case (Suc n)
  have len: "length (concat (map f [0..<n])) = n * m"
    using Suc.prems(1) by (simp add: length_concat_map_upt)
  show ?case
  proof (cases "i < n")
    case True
    have "i * m + j < n * m"
    proof -
      have "i * m + j < i * m + m" using Suc.prems(3) by simp
      also have "\<dots> = Suc i * m" by simp
      also have "\<dots> \<le> n * m" using True by (intro mult_le_mono1) simp
      finally show ?thesis .
    qed
    then show ?thesis
      using Suc.IH [OF Suc.prems(1) True Suc.prems(3)] len by (simp add: nth_append)
  next
    case False
    then have "i = n" using Suc.prems(2) by simp
    then show ?thesis using len by (simp add: nth_append)
  qed
qed


lemma length_positions:
  "length st = length sh \<Longrightarrow> length (positions off sh st) = prod_list sh"
proof (induction off sh st rule: positions.induct)
  case (1 off st)
  then show ?case by simp
next
  case (2 off n sh s st)
  then show ?case by (simp add: length_concat_map_upt)
next
  case (3 off n sh)
  then show ?case by simp
qed

lemma length_positions3:
  "length (positions off [n0, n1, n2] [s0, s1, s2]) = n0 * n1 * n2"
  using length_positions [of "[s0, s1, s2]" "[n0, n1, n2]" off] by (simp add: mult.assoc)

lemma positions_Cons_nth:
  assumes "length st = length sh" "i < n" "j < prod_list sh"
  shows "positions off (n # sh) (s # st) ! (i * prod_list sh + j) = positions (off + i * s) sh st ! j"
proof -
  have "concat (map (\<lambda>i. positions (off + i * s) sh st) [0..<n]) ! (i * prod_list sh + j)
          = positions (off + i * s) sh st ! j"
    using assms by (intro concat_map_upt_nth) (simp_all add: length_positions)
  then show ?thesis by simp
qed

lemma positions3_nth:
  assumes "i0 < n0" "i1 < n1" "i2 < n2"
  shows "positions off [n0, n1, n2] [s0, s1, s2] ! ((i0 * n1 + i1) * n2 + i2)
           = off + i0 * s0 + i1 * s1 + i2 * s2"
proof -
  have b2: "i1 * n2 + i2 < n1 * n2"
  proof -
    have "i1 * n2 + i2 < Suc i1 * n2" using assms(3) by simp
    also have "\<dots> \<le> n1 * n2" using assms(2) by (intro mult_le_mono1) simp
    finally show ?thesis .
  qed
  have e: "(i0 * n1 + i1) * n2 + i2 = i0 * prod_list [n1, n2] + (i1 * prod_list [n2] + (i2 * prod_list [] + 0))"
    by (simp add: algebra_simps)
  have "positions off [n0, n1, n2] [s0, s1, s2] ! ((i0 * n1 + i1) * n2 + i2)
          = positions (off + i0 * s0) [n1, n2] [s1, s2] ! (i1 * prod_list [n2] + (i2 * prod_list [] + 0))"
    unfolding e using assms(1) b2 by (intro positions_Cons_nth) simp_all
  also have "\<dots> = positions (off + i0 * s0 + i1 * s1) [n2] [s2] ! (i2 * prod_list [] + 0)"
    using assms(2,3) by (intro positions_Cons_nth) simp_all
  also have "\<dots> = positions (off + i0 * s0 + i1 * s1 + i2 * s2) [] [] ! 0"
    using assms(3) by (intro positions_Cons_nth) simp_all
  finally show ?thesis by simp
qed

lemma mset_positions_Cons:
  "mset (positions off (n # sh) (s # st)) = (\<Sum>i \<in> {0..<n}. mset (positions (off + i * s) sh st))"
  by (simp add: mset_concat comp_def interv_sum_list_conv_sum_set_nat)

lemma mset_positions3:
  "mset (positions off [n0, n1, n2] [s0, s1, s2]) =
     (\<Sum>i0 \<in> {0..<n0}. \<Sum>i1 \<in> {0..<n1}. \<Sum>i2 \<in> {0..<n2}. {#off + i0 * s0 + i1 * s1 + i2 * s2#})"
  by (simp only: mset_positions_Cons positions.simps(1) mset.simps add_mset_add_single [symmetric])

lemma mset_positions_transpose:
  "mset (positions off [n1, n2, n0] [s1, s2, s0]) = mset (positions off [n0, n1, n2] [s0, s1, s2])"
proof -
  have "mset (positions off [n1, n2, n0] [s1, s2, s0]) =
     (\<Sum>i1 \<in> {0..<n1}. \<Sum>i2 \<in> {0..<n2}. \<Sum>i0 \<in> {0..<n0}. {#off + i0 * s0 + i1 * s1 + i2 * s2#})"
    unfolding mset_positions3 by (simp add: add_ac)
  also have "\<dots> = (\<Sum>i1 \<in> {0..<n1}. \<Sum>i0 \<in> {0..<n0}. \<Sum>i2 \<in> {0..<n2}. {#off + i0 * s0 + i1 * s1 + i2 * s2#})"
    by (subst sum.swap [of _ "{0..<n0}" "{0..<n2}"]) (rule refl)
  also have "\<dots> = (\<Sum>i0 \<in> {0..<n0}. \<Sum>i1 \<in> {0..<n1}. \<Sum>i2 \<in> {0..<n2}. {#off + i0 * s0 + i1 * s1 + i2 * s2#})"
    by (rule sum.swap)
  finally show ?thesis unfolding mset_positions3 .
qed

lemma positions_squeeze:
  "positions off (1 # sh) (s # st) = positions off sh st"
  by simp

lemma fold_update_length:
  "length (fold (\<lambda>p b. b[p := g p]) ps b) = length b"
  by (induction ps arbitrary: b) simp_all

lemma fold_update_nth:
  "\<forall>p \<in> set ps. p < length b \<Longrightarrow>
     fold (\<lambda>p b. b[p := g p]) ps b ! q = (if q \<in> set ps then g q else b ! q)"
proof (induction ps arbitrary: b)
  case Nil
  then show ?case by simp
next
  case (Cons p ps)
  have "fold (\<lambda>p b. b[p := g p]) (p # ps) b ! q = fold (\<lambda>p b. b[p := g p]) ps (b[p := g p]) ! q"
    by simp
  also have "\<dots> = (if q \<in> set ps then g q else b[p := g p] ! q)"
    using Cons.prems by (intro Cons.IH) simp_all
  also have "\<dots> = (if q \<in> set (p # ps) then g q else b ! q)"
    using Cons.prems by (auto simp: nth_list_update)
  finally show ?case .
qed

lemma concat_upt_blocks:
  "concat (map (\<lambda>i. [off + i * m ..< off + i * m + m]) [0..<k]) = [off ..< off + k * m]"
proof (induction k)
  case 0
  then show ?case by simp
next
  case (Suc k)
  have "[off ..< off + k * m + m] = [off ..< off + k * m] @ [off + k * m ..< off + k * m + m]"
    by (metis le_add1 upt_add_eq_append)
  then show ?case using Suc by (simp add: add.commute add.left_commute)
qed

lemma positions_c_strides: "positions off sh (c_strides sh) = [off ..< off + prod_list sh]"
proof (induction sh arbitrary: off)
  case Nil
  then show ?case by simp
next
  case (Cons n sh)
  then show ?case using concat_upt_blocks [of off "prod_list sh" n] by simp
qed

lemma valid_c_contiguous:
  "b < length st \<Longrightarrow> length (st ! b) = prod_list sh \<Longrightarrow> valid_view st (c_contiguous b sh)"
proof -
  have "length (c_strides sh) = length sh" by (induction sh) simp_all
  then show "b < length st \<Longrightarrow> length (st ! b) = prod_list sh \<Longrightarrow> valid_view st (c_contiguous b sh)"
    by (simp add: valid_view_def c_contiguous_def view_positions_def positions_c_strides)
qed

lemma contents_cong:
  "st' ! base a = st ! base a \<Longrightarrow> contents st' a = contents st a"
  by (simp add: contents_def)

lemma contents_expand_dims0:
  "contents st (expand_dims0 a) = (1 # shape a, snd (contents st a))"
  by (simp add: contents_def expand_dims0_def view_positions_def)

lemma alloc_frame:
  assumes "alloc st v = (a, st')"
  shows "length st' = Suc (length st)" "base a = length st" "\<forall>b<length st. st' ! b = st ! b"
    "st' ! base a = snd v" "shape a = fst v" "offset a = 0" "strides a = c_strides (fst v)"
  using assms by (auto simp: alloc_def c_contiguous_def nth_append)

section \<open>\<^verbatim>\<open>convert_result_to_image\<close>\<close>

lemma view_positions_squeeze_transpose:
  assumes "shape a = [1, C, H, W]" "strides a = [t0, t1, t2, t3]"
  shows "squeeze0 a = Inr (a\<lparr>shape := [C, H, W], strides := [t1, t2, t3]\<rparr>)"
    and "transpose_120 (a\<lparr>shape := [C, H, W], strides := [t1, t2, t3]\<rparr>)
           = Inr (a\<lparr>shape := [H, W, C], strides := [t2, t3, t1]\<rparr>)"
    and "mset (view_positions (a\<lparr>shape := [H, W, C], strides := [t2, t3, t1]\<rparr>))
           = mset (view_positions a)"
proof -
  show "squeeze0 a = Inr (a\<lparr>shape := [C, H, W], strides := [t1, t2, t3]\<rparr>)"
    using assms by (simp add: squeeze0_def)
  show "transpose_120 (a\<lparr>shape := [C, H, W], strides := [t1, t2, t3]\<rparr>)
           = Inr (a\<lparr>shape := [H, W, C], strides := [t2, t3, t1]\<rparr>)"
    by (simp add: transpose_120_def)
  have "view_positions a = positions (offset a) [C, H, W] [t1, t2, t3]"
    unfolding view_positions_def assms by (rule positions_squeeze)
  then show "mset (view_positions (a\<lparr>shape := [H, W, C], strides := [t2, t3, t1]\<rparr>))
           = mset (view_positions a)"
    by (simp add: view_positions_def mset_positions_transpose del: positions.simps)
qed

lemma strides_of_valid:
  assumes "valid_view st a" "shape a = [1, C, H, W]"
  obtains t0 t1 t2 t3 where "strides a = [t0, t1, t2, t3]"
proof -
  have "length (strides a) = 4" using assms by (simp add: valid_view_def)
  then obtain t0 t1 t2 t3 where "strides a = [t0, t1, t2, t3]"
    by (auto simp: length_Suc_conv numeral_eq_Suc)
  then show ?thesis using that by blast
qed

lemma update_view_length: "length (update_view f a st) = length st"
  by (simp add: update_view_def)

lemma update_view_other: "b \<noteq> base a \<Longrightarrow> update_view f a st ! b = st ! b"
  by (simp add: update_view_def)

lemma update_view_buf_length:
  "base a < length st \<Longrightarrow> length (update_view f a st ! base a) = length (st ! base a)"
  by (simp add: update_view_def fold_update_length)

lemma update_view_nth:
  assumes "base a < length st" "\<forall>p \<in> set (view_positions a). p < length (st ! base a)"
  shows "update_view f a st ! base a ! q =
           (if q \<in> set (view_positions a) then f (st ! base a ! q) else st ! base a ! q)"
  using assms
  by (simp add: update_view_def fold_update_nth [where g = "\<lambda>p. f (st ! base a ! p)"])

lemma three_passes:
  "(\<lambda>x. if x > 255 then 255 else x) ((\<lambda>x. if x < 0 then 0 else x) (y::real)) = min 255 (max 0 y)"
  by (simp add: min_def max_def)

lemma passes_frame:
  "length (clip_passes fl r st) = length st"
  "b \<noteq> base r \<Longrightarrow> clip_passes fl r st ! b = st ! b"
  "base r < length st \<Longrightarrow> length (clip_passes fl r st ! base r) = length (st ! base r)"
  by (simp_all add: clip_passes_def update_view_length update_view_other update_view_buf_length)

lemma passes_nth:
  assumes "base r < length st" "\<forall>p \<in> set (view_positions r). p < length (st ! base r)"
  shows "clip_passes fl r st ! base r ! q =
           (if q \<in> set (view_positions r) then min 255 (max 0 (fl (st ! base r ! q * 255)))
            else st ! base r ! q)"
proof -
  let ?s1 = "update_view (\<lambda>x. fl (x * 255)) r st"
  let ?s2 = "update_view (\<lambda>x. if x < 0 then 0 else x) r ?s1"
  have 1: "?s1 ! base r ! q = (if q \<in> set (view_positions r) then fl (st ! base r ! q * 255) else st ! base r ! q)" for q
    using assms by (rule update_view_nth)
  have b1: "base r < length ?s1" "\<forall>p \<in> set (view_positions r). p < length (?s1 ! base r)"
    using assms by (simp_all add: update_view_length update_view_buf_length)
  have 2: "?s2 ! base r ! q = (if q \<in> set (view_positions r) then (\<lambda>x. if x < 0 then 0 else x) (?s1 ! base r ! q) else ?s1 ! base r ! q)" for q
    using b1 by (rule update_view_nth)
  have b2: "base r < length ?s2" "\<forall>p \<in> set (view_positions r). p < length (?s2 ! base r)"
    using b1 by (simp_all add: update_view_length update_view_buf_length)
  have 3: "clip_passes fl r st ! base r ! q = (if q \<in> set (view_positions r) then (\<lambda>x. if x > 255 then 255 else x) (?s2 ! base r ! q) else ?s2 ! base r ! q)"
    unfolding clip_passes_def using b2 by (rule update_view_nth)
  show ?thesis
  proof (cases "q \<in> set (view_positions r)")
    case True
    then show ?thesis unfolding 3 2 1 using three_passes [of "fl (st ! base r ! q * 255)"] by simp
  next
    case False
    then show ?thesis unfolding 3 2 1 by simp
  qed
qed

lemma convert_unfold:
  assumes "shape a = [1, C, H, W]" "strides a = [t0, t1, t2, t3]"
  shows "writeable a \<Longrightarrow> convert_result_to_image fl st a =
           Inr (astype_uint8 (a\<lparr>shape := [H, W, C], strides := [t2, t3, t1]\<rparr>)
                  (clip_passes fl (a\<lparr>shape := [H, W, C], strides := [t2, t3, t1]\<rparr>) st),
                clip_passes fl (a\<lparr>shape := [H, W, C], strides := [t2, t3, t1]\<rparr>) st)"
    and "\<not> writeable a \<Longrightarrow> convert_result_to_image fl st a = Inl ValueError"
  using view_positions_squeeze_transpose(1,2) [OF assms]
  by (simp_all add: convert_result_to_image_def clip_passes_def map_inplace_def)

lemma uint8_of_clipped:
  assumes "0 \<le> y" "y \<le> 255"
  shows "int (unat (word_of_int (trunc y) :: 8 word)) = \<lfloor>y\<rfloor>"
proof -
  have "0 \<le> \<lfloor>y\<rfloor>" "\<lfloor>y\<rfloor> < 256" using assms by (simp_all add: floor_less_iff)
  then show ?thesis using assms by (simp add: trunc_def unat_eq_nat_uint uint_word_of_int take_bit_int_eq_self)
qed

lemma flat_index4_mem:
  assumes "shape a = [1, C, H, W]" "strides a = [t0, t1, t2, t3]" "c < C" "h < H" "w < W"
  shows "flat_index a [0, c, h, w] = offset a + c * t1 + h * t2 + w * t3"
    and "flat_index a [0, c, h, w] \<in> set (view_positions a)"
proof -
  show e: "flat_index a [0, c, h, w] = offset a + c * t1 + h * t2 + w * t3"
    by (simp add: flat_index_def assms(2))
  have v: "view_positions a = positions (offset a) [C, H, W] [t1, t2, t3]"
    unfolding view_positions_def assms by (rule positions_squeeze)
  have "(c * H + h) * W + w < C * H * W"
  proof -
    have "(c * H + h) * W + w < Suc (c * H + h) * W" using assms(5) by simp
    also have "\<dots> \<le> (Suc c * H) * W" using assms(4) by (intro mult_le_mono1) simp
    also have "\<dots> \<le> (C * H) * W" using assms(3) by (intro mult_le_mono1) simp
    finally show ?thesis .
  qed
  then have "positions (offset a) [C, H, W] [t1, t2, t3] ! ((c * H + h) * W + w) \<in> set (view_positions a)"
    unfolding v by (intro nth_mem) (simp only: length_positions3)
  then show "flat_index a [0, c, h, w] \<in> set (view_positions a)"
    unfolding e using positions3_nth [OF assms(3,4,5), of "offset a" t1 t2 t3] by simp
qed

lemma transposed_view:
  assumes "valid_view st a" "shape a = [1, C, H, W]" "strides a = [t0, t1, t2, t3]"
  defines "r \<equiv> a\<lparr>shape := [H, W, C], strides := [t2, t3, t1]\<rparr>"
  shows "base r = base a" "base r < length st"
    "set (view_positions r) = set (view_positions a)"
    "\<forall>p \<in> set (view_positions r). p < length (st ! base r)"
    "view_positions r = positions (offset a) [H, W, C] [t2, t3, t1]"
proof -
  have m: "mset (view_positions r) = mset (view_positions a)"
    unfolding r_def using assms(2,3) by (rule view_positions_squeeze_transpose(3))
  show b: "base r = base a" by (simp add: r_def)
  show "base r < length st" using assms(1) by (simp add: r_def valid_view_def)
  show s: "set (view_positions r) = set (view_positions a)"
    using m by (rule mset_eq_setD)
  show "\<forall>p \<in> set (view_positions r). p < length (st ! base r)"
    unfolding s b using assms(1) by (simp add: valid_view_def)
  show "view_positions r = positions (offset a) [H, W, C] [t2, t3, t1]"
    by (simp add: r_def view_positions_def del: positions.simps)
qed

subsection \<open>Rounding of concrete products\<close>

lemma round_half_even_int: "round_half_even (of_int n) = n"
  by (simp add: round_half_even_def)

lemma ulp_search_eq:
  "k \<le> n \<Longrightarrow> 0 < u \<Longrightarrow> 0 < m \<Longrightarrow> (k = 0 \<or> u * 2 ^ (k - 1) * m \<le> \<bar>x\<bar>) \<Longrightarrow>
     \<bar>x\<bar> < u * 2 ^ k * m \<Longrightarrow> ulp_search n u m x = u * 2 ^ k"
proof (induction k arbitrary: n u)
  case 0
  then show ?case by (cases n) simp_all
next
  case (Suc k)
  then obtain n' where n: "n = Suc n'" "k \<le> n'" by (cases n) simp_all
  have lo: "u * 2 ^ k * m \<le> \<bar>x\<bar>" using Suc.prems(4) by simp
  have "u * m \<le> u * 2 ^ k * m"
    using Suc.prems(2,3) by (simp add: mult_le_cancel_right)
  then have "\<not> \<bar>x\<bar> < u * m" using lo by linarith
  then have "ulp_search n u m x = ulp_search n' (2 * u) m x" by (simp add: n(1))
  also have "\<dots> = 2 * u * 2 ^ k"
  proof (rule Suc.IH [OF n(2)])
    show "0 < 2 * u" using Suc.prems(2) by simp
    show "0 < m" by (rule Suc.prems(3))
    show "k = 0 \<or> 2 * u * 2 ^ (k - 1) * m \<le> \<bar>x\<bar>"
    proof (cases k)
      case 0
      then show ?thesis by simp
    next
      case (Suc j)
      then show ?thesis using lo by simp
    qed
    show "\<bar>x\<bar> < 2 * u * 2 ^ k * m" using Suc.prems(5) by (simp add: mult.assoc mult.left_commute)
  qed
  finally show ?case by simp
qed

text \<open>The rounding of a number, once the binade it lies in is known.\<close>

lemma round_to_format_eq:
  assumes "k \<le> emin + emax"
    "k = 0 \<or> 2 ^ (k - 1) * 2 ^ p \<le> \<bar>x\<bar> * 2 ^ (emin + p - 1)"
    "\<bar>x\<bar> * 2 ^ (emin + p - 1) < 2 ^ k * 2 ^ p"
  shows "round_to_format p emin emax x
           = of_int (round_half_even (x * 2 ^ (emin + p - 1) / 2 ^ k)) * 2 ^ k / 2 ^ (emin + p - 1)"
proof -
  let ?d = "(2::real) ^ (emin + p - 1)"
  have d: "0 < ?d" by simp
  have "ulp_search (emin + emax) (1 / ?d) (2 ^ p) x = 1 / ?d * 2 ^ k"
  proof (rule ulp_search_eq [OF assms(1)])
    show "0 < 1 / ?d" by simp
    show "(0::real) < 2 ^ p" by simp
    show "k = 0 \<or> 1 / ?d * 2 ^ (k - 1) * 2 ^ p \<le> \<bar>x\<bar>"
      using assms(2) d by (auto simp: field_simps)
    show "\<bar>x\<bar> < 1 / ?d * 2 ^ k * 2 ^ p"
      using assms(3) d by (simp add: field_simps)
  qed
  then have u: "ulp_search (emin + emax) (1 / ?d) (2 ^ p) x = 2 ^ k / ?d" by simp
  show ?thesis unfolding round_to_format_def Let_def u by simp
qed

lemma float32_zero: "float32 0 = 0"
proof -
  have "round_to_format 24 126 127 0
          = of_int (round_half_even (0 * 2 ^ (126 + 24 - 1) / 2 ^ 0)) * 2 ^ 0 / 2 ^ (126 + 24 - 1)"
    by (rule round_to_format_eq) simp_all
  also have "\<dots> = 0" by (simp add: round_half_even_def Let_def)
  finally show ?thesis by (simp add: float32_def)
qed

lemma float32_half_scaled: "float32 (255 / 2) = 255 / 2"
proof -
  have "round_to_format 24 126 127 (255 / 2)
          = of_int (round_half_even ((255 / 2) * 2 ^ (126 + 24 - 1) / 2 ^ 132))
              * 2 ^ 132 / 2 ^ (126 + 24 - 1)"
    by (rule round_to_format_eq) simp_all
  also have "\<dots> = 255 / 2" by (simp add: round_half_even_def Let_def)
  finally show ?thesis by (simp add: float32_def)
qed

text \<open>
  Two products that are not representable: in \<open>float32\<close>, 8421505 / 2^31 times 255 is
  rounded down to 1; in \<open>float64\<close>, 282578800148737 / 2^56 times 255 is rounded up to 1.
\<close>

lemma float32_rounds_down: "float32 (8421505 / 2147483648 * 255) = 1"
proof -
  have "round_to_format 24 126 127 (8421505 / 2147483648 * 255)
          = of_int (round_half_even ((8421505 / 2147483648 * 255) * 2 ^ (126 + 24 - 1) / 2 ^ 126))
              * 2 ^ 126 / 2 ^ (126 + 24 - 1)"
    by (rule round_to_format_eq) simp_all
  also have "\<dots> = 1" by (simp add: round_half_even_def Let_def)
  finally show ?thesis by (simp add: float32_def)
qed

lemma float64_rounds_up: "float64 (282578800148737 / 72057594037927936 * 255) = 1"
proof -
  have "round_to_format 53 1022 1023 (282578800148737 / 72057594037927936 * 255)
          = of_int (round_half_even ((282578800148737 / 72057594037927936 * 255)
                                       * 2 ^ (1022 + 53 - 1) / 2 ^ 1021))
              * 2 ^ 1021 / 2 ^ (1022 + 53 - 1)"
    by (rule round_to_format_eq) simp_all
  also have "\<dots> = 1" by (simp add: round_half_even_def Let_def)
  finally show ?thesis by (simp add: float64_def)
qed

lemma float32_quarter_scaled: "float32 (255 / 4) = 255 / 4"
proof -
  have "round_to_format 24 126 127 (255 / 4)
          = of_int (round_half_even ((255 / 4) * 2 ^ (126 + 24 - 1) / 2 ^ 131))
              * 2 ^ 131 / 2 ^ (126 + 24 - 1)"
    by (rule round_to_format_eq) simp_all
  also have "\<dots> = 255 / 4" by (simp add: round_half_even_def Let_def)
  finally show ?thesis by (simp add: float32_def)
qed

lemma example_convert_half:
  "convert_result_to_image float32 [[1 / 2]] (c_contiguous 0 [1, 1, 1, 1])
     = Inr (([1, 1, 1], [127]), [[255 / 2]])"
  by (simp add: convert_result_to_image_def squeeze0_def transpose_120_def map_inplace_def
      update_view_def view_positions_def c_contiguous_def astype_uint8_def trunc_def
      float32_half_scaled)

lemma example_convert_read_only:
  "convert_result_to_image float32 [[1 / 2]] ((c_contiguous 0 [1, 1, 1, 1])\<lparr>writeable := False\<rparr>)
     = Inl ValueError"
  by (simp add: convert_result_to_image_def squeeze0_def transpose_120_def map_inplace_def
      c_contiguous_def)

lemma example_convert_zero:
  "convert_result_to_image float32 [[0]] (c_contiguous 0 [1, 1, 1, 1])
     = Inr (([1, 1, 1], [0]), [[0]])"
  by (simp add: convert_result_to_image_def squeeze0_def transpose_120_def map_inplace_def
      update_view_def view_positions_def c_contiguous_def astype_uint8_def trunc_def
      float32_zero)

lemma example_valid:
  "valid_view [[1 / 2, - 1, 2, 1 / 4, 8421505 / 2147483648, 1 :: real]] (c_contiguous 0 [1, 2, 1, 3])"
  by (rule valid_c_contiguous) simp_all

lemma example_shape:
  "shape (c_contiguous 0 [1, 2, 1, 3]) = [1, 2, 1, 3]" "writeable (c_contiguous 0 [1, 2, 1, 3])"
  by (simp_all add: c_contiguous_def)

text \<open>
  In \<open>float64\<close> the product of 282578800148737 / 2^56 and 255 is rounded to 1, which
  is the pixel; with exact multiplication it would be 0.
\<close>

lemma example_convert_float64:
  "convert_result_to_image float64 [[282578800148737 / 72057594037927936]]
       (c_contiguous 0 [1, 1, 1, 1])
     = Inr (([1, 1, 1], [1]), [[1]])"
proof -
  have r: "float64 (72057594037927935 / 72057594037927936) = 1"
    using float64_rounds_up by simp
  show ?thesis
    by (simp add: convert_result_to_image_def squeeze0_def transpose_120_def map_inplace_def
        update_view_def view_positions_def c_contiguous_def astype_uint8_def trunc_def r)
qed

text \<open>
  A view that reaches each buffer element twice (strides 1 and 0 on the last two axes):
  every element is scaled once.
\<close>

lemma example_convert_overlapping:
  "convert_result_to_image float32 [[0, 1 / 4]]
       \<lparr>base = 0, offset = 0, shape = [1, 1, 2, 2], strides = [0, 0, 1, 0], writeable = True\<rparr>
     = Inr (([2, 2, 1], [0, 0, 63, 63]), [[0, 255 / 4]])"
  by (simp add: convert_result_to_image_def squeeze0_def transpose_120_def map_inplace_def
      update_view_def view_positions_def astype_uint8_def trunc_def numeral_2_eq_2
      float32_zero float32_quarter_scaled)

text \<open>
  C3, as stated: for every input array of shape (1, C, H, W) the function returns an
  image in which every element equals the input element scaled by 255 and clipped to
  [0, 255]. The cast to \<^verbatim>\<open>uint8\<close> drops the fraction: the input 0.5 gives 127, not
  127.5. And on an array that is not writeable the function raises instead of returning.
\<close>

theorem convert_result_to_image_floor_counterexample:
  "valid_view [[1 / 2 :: real]] (c_contiguous 0 [1, 1, 1, 1]) \<and>
   shape (c_contiguous 0 [1, 1, 1, 1]) = [1, 1, 1, 1] \<and>
   convert_result_to_image float32 [[1 / 2]] (c_contiguous 0 [1, 1, 1, 1])
     = Inr (([1, 1, 1], [127]), [[255 / 2]]) \<and>
   real (unat (127 :: 8 word))
     \<noteq> min 255 (max 0 (255 * element [[1 / 2]] (c_contiguous 0 [1, 1, 1, 1]) [0, 0, 0, 0])) \<and>
   convert_result_to_image float32 [[1 / 2]] ((c_contiguous 0 [1, 1, 1, 1])\<lparr>writeable := False\<rparr>)
     = Inl ValueError"
proof -
  have "valid_view [[1 / 2 :: real]] (c_contiguous 0 [1, 1, 1, 1])"
    by (rule valid_c_contiguous) simp_all
  moreover have "shape (c_contiguous 0 [1, 1, 1, 1]) = [1, 1, 1, 1]"
    by (simp add: c_contiguous_def)
  moreover have "real (unat (127 :: 8 word))
     \<noteq> min 255 (max 0 (255 * element [[1 / 2]] (c_contiguous 0 [1, 1, 1, 1]) [0, 0, 0, 0]))"
    by (simp add: element_def flat_index_def c_contiguous_def)
  ultimately show ?thesis using example_convert_half example_convert_read_only by blast
qed

text \<open>
  C3, amended. For every writeable input array of shape (1, C, H, W) with real entries,
  \<open>convert_result_to_image\<close> returns a \<^verbatim>\<open>uint8\<close> array of shape (H, W, C) whose
  element at (h, w, c) is the integer part of the clipped product: the input element at
  (0, c, h, w) is multiplied by 255 in the floating-point arithmetic of the array, clipped
  to [0, 255] and truncated. On an array that is not writeable it raises
  \<^verbatim>\<open>ValueError\<close>.
\<close>

theorem convert_result_to_image_pixels:
  assumes "valid_view st result" "shape result = [1, C, H, W]"
  shows "if writeable result then
           (\<exists>data st'. convert_result_to_image fl st result = Inr (([H, W, C], data), st') \<and>
              length data = H * W * C \<and>
              (\<forall>h<H. \<forall>w<W. \<forall>c<C.
                 int (unat (data ! ((h * W + w) * C + c)))
                   = \<lfloor>min 255 (max 0 (fl (element st result [0, c, h, w] * 255)))\<rfloor>))
         else convert_result_to_image fl st result = Inl ValueError"
proof (cases "writeable result")
  case False
  obtain t0 t1 t2 t3 where t: "strides result = [t0, t1, t2, t3]"
    using assms by (rule strides_of_valid)
  show ?thesis using False convert_unfold(2) [OF assms(2) t False] by simp
next
  case True
  obtain t0 t1 t2 t3 where t: "strides result = [t0, t1, t2, t3]"
    using assms by (rule strides_of_valid)
  define r where "r = result\<lparr>shape := [H, W, C], strides := [t2, t3, t1]\<rparr>"
  note tv = transposed_view [OF assms t, folded r_def]
  let ?data = "map (\<lambda>p. word_of_int (trunc (clip_passes fl r st ! base r ! p)) :: 8 word) (view_positions r)"
  have conv: "convert_result_to_image fl st result = Inr (([H, W, C], ?data), clip_passes fl r st)"
    unfolding convert_unfold(1) [OF assms(2) t True] r_def [symmetric]
    by (simp add: astype_uint8_def r_def)
  have len: "length ?data = H * W * C"
    unfolding length_map tv(5) by (rule length_positions3)
  have px: "int (unat (?data ! ((h * W + w) * C + c)))
                = \<lfloor>min 255 (max 0 (fl (element st result [0, c, h, w] * 255)))\<rfloor>"
    if "h < H" "w < W" "c < C" for h w c
  proof -
    let ?k = "(h * W + w) * C + c"
    let ?p = "flat_index result [0, c, h, w]"
    have k: "?k < length (view_positions r)"
    proof -
      have "?k < Suc (h * W + w) * C" using that(3) by simp
      also have "\<dots> \<le> (Suc h * W) * C" using that(2) by (intro mult_le_mono1) simp
      also have "\<dots> \<le> (H * W) * C" using that(1) by (intro mult_le_mono1) simp
      finally show ?thesis using len by simp
    qed
    have "view_positions r ! ?k = offset result + h * t2 + w * t3 + c * t1"
      unfolding tv(5) using that by (rule positions3_nth)
    also have "\<dots> = ?p"
      using flat_index4_mem(1) [OF assms(2) t that(3,1,2)] by simp
    finally have p: "view_positions r ! ?k = ?p" .
    have mem: "?p \<in> set (view_positions r)"
      unfolding tv(3) using assms(2) t that(3,1,2) by (rule flat_index4_mem(2))
    have val: "clip_passes fl r st ! base r ! ?p
                 = min 255 (max 0 (fl (element st result [0, c, h, w] * 255)))"
      using passes_nth [OF tv(2,4), of fl ?p] mem by (simp add: element_def tv(1))
    have d: "?data ! ?k = word_of_int (trunc (clip_passes fl r st ! base r ! ?p))"
      using k p by simp
    have "int (unat (word_of_int (trunc (min 255 (max 0 (fl (element st result [0, c, h, w] * 255))))) :: 8 word))
            = \<lfloor>min 255 (max 0 (fl (element st result [0, c, h, w] * 255)))\<rfloor>"
      by (rule uint8_of_clipped) simp_all
    then show ?thesis unfolding d val .
  qed
  show ?thesis using True conv len px by auto
qed

theorem convert_result_to_image_pixels_witness:
  "valid_view [[1 / 2, - 1, 2, 1 / 4, 8421505 / 2147483648, 1 :: real]] (c_contiguous 0 [1, 2, 1, 3]) \<and>
   shape (c_contiguous 0 [1, 2, 1, 3]) = [1, 2, 1, 3] \<and>
   writeable (c_contiguous 0 [1, 2, 1, 3]) \<and>
   (\<exists>data st'.
      convert_result_to_image float32 [[1 / 2, - 1, 2, 1 / 4, 8421505 / 2147483648, 1]]
          (c_contiguous 0 [1, 2, 1, 3])
        = Inr (([1, 3, 2], data), st') \<and>
      length data = 1 * 3 * 2 \<and>
      int (unat (data ! ((0 * 3 + 1) * 2 + 1))) = 1)"
proof -
  from convert_result_to_image_pixels [OF example_valid example_shape(1), of float32,
      unfolded if_P [OF example_shape(2)]]
  obtain data st' where
    c: "convert_result_to_image float32 [[1 / 2, - 1, 2, 1 / 4, 8421505 / 2147483648, 1]]
          (c_contiguous 0 [1, 2, 1, 3]) = Inr (([1, 3, 2], data), st')"
    and l: "length data = 1 * 3 * 2"
    and px: "\<forall>h<1. \<forall>w<3. \<forall>c<2. int (unat (data ! ((h * 3 + w) * 2 + c)))
          = \<lfloor>min 255 (max 0 (float32 (element [[1 / 2, - 1, 2, 1 / 4, 8421505 / 2147483648, 1 :: real]]
                                        (c_contiguous 0 [1, 2, 1, 3]) [0, c, h, w] * 255)))\<rfloor>"
    by blast
  have e: "element [[1 / 2, - 1, 2, 1 / 4, 8421505 / 2147483648, 1 :: real]]
             (c_contiguous 0 [1, 2, 1, 3]) [0, 1, 0, 1] = 8421505 / 2147483648"
    by (simp add: element_def flat_index_def c_contiguous_def)
  have "int (unat (data ! ((0 * 3 + 1) * 2 + 1)))
          = \<lfloor>min 255 (max 0 (float32 (element [[1 / 2, - 1, 2, 1 / 4, 8421505 / 2147483648, 1 :: real]]
                                        (c_contiguous 0 [1, 2, 1, 3]) [0, 1, 0, 1] * 255)))\<rfloor>"
    using px [rule_format, of 0 1 1] by simp
  also have "\<dots> = 1" unfolding e float32_rounds_down by simp
  finally have "int (unat (data ! ((0 * 3 + 1) * 2 + 1))) = 1" .
  then show ?thesis using example_valid example_shape c l by blast
qed

text \<open>
  C9, as stated: the input is not left unchanged. An array of zeros is left as it was.
\<close>

theorem convert_result_to_image_zeros_counterexample:
  "valid_view [[0 :: real]] (c_contiguous 0 [1, 1, 1, 1]) \<and>
   shape (c_contiguous 0 [1, 1, 1, 1]) = [1, 1, 1, 1] \<and>
   writeable (c_contiguous 0 [1, 1, 1, 1]) \<and>
   convert_result_to_image float32 [[0]] (c_contiguous 0 [1, 1, 1, 1])
     = Inr (([1, 1, 1], [0]), [[0]])"
proof -
  have "valid_view [[0 :: real]] (c_contiguous 0 [1, 1, 1, 1])"
    by (rule valid_c_contiguous) simp_all
  moreover have "shape (c_contiguous 0 [1, 1, 1, 1]) = [1, 1, 1, 1]"
    "writeable (c_contiguous 0 [1, 1, 1, 1])"
    by (simp_all add: c_contiguous_def)
  ultimately show ?thesis using example_convert_zero by blast
qed

text \<open>
  C9, amended. On a writeable array \<open>convert_result_to_image\<close> changes its argument in
  place: the squeezed and transposed array is a view of the caller's buffer, so after the
  call every element of the caller's array has been multiplied by 255, in the
  floating-point arithmetic of the array, and clipped to [0, 255]; nothing else in the
  store changes. The argument is changed exactly when one of its elements differs from
  its scaled and clipped value.
\<close>

theorem convert_result_to_image_mutates_input:
  assumes "valid_view st result" "writeable result" "shape result = [1, C, H, W]"
  shows "\<exists>img st'. convert_result_to_image fl st result = Inr (img, st') \<and>
           length st' = length st \<and>
           (\<forall>b. b \<noteq> base result \<longrightarrow> st' ! b = st ! b) \<and>
           length (st' ! base result) = length (st ! base result) \<and>
           (\<forall>p. st' ! base result ! p =
                  (if p \<in> set (view_positions result)
                   then min 255 (max 0 (fl (st ! base result ! p * 255)))
                   else st ! base result ! p)) \<and>
           (\<forall>c<C. \<forall>h<H. \<forall>w<W.
              element st' result [0, c, h, w]
                = min 255 (max 0 (fl (element st result [0, c, h, w] * 255)))) \<and>
           (st' \<noteq> st \<longleftrightarrow>
              (\<exists>p\<in>set (view_positions result).
                 min 255 (max 0 (fl (st ! base result ! p * 255))) \<noteq> st ! base result ! p))"
proof -
  obtain t0 t1 t2 t3 where t: "strides result = [t0, t1, t2, t3]"
    using assms(1,3) by (rule strides_of_valid)
  define r where "r = result\<lparr>shape := [H, W, C], strides := [t2, t3, t1]\<rparr>"
  note tv = transposed_view [OF assms(1,3) t, folded r_def]
  define st' where "st' = clip_passes fl r st"
  have conv: "convert_result_to_image fl st result = Inr (astype_uint8 r st', st')"
    unfolding convert_unfold(1) [OF assms(3) t assms(2)] r_def [symmetric] st'_def ..
  have f1: "length st' = length st" unfolding st'_def by (rule passes_frame(1))
  have f2: "st' ! b = st ! b" if "b \<noteq> base result" for b
    unfolding st'_def using that passes_frame(2) [of b r fl st] by (simp add: tv(1))
  have f3: "length (st' ! base result) = length (st ! base result)"
    unfolding st'_def using passes_frame(3) [OF tv(2)] by (simp add: tv(1))
  have f4: "st' ! base result ! p =
                  (if p \<in> set (view_positions result)
                   then min 255 (max 0 (fl (st ! base result ! p * 255)))
                   else st ! base result ! p)" for p
    unfolding st'_def using passes_nth [OF tv(2,4), of fl p] by (simp add: tv(1) tv(3))
  have f5: "element st' result [0, c, h, w] = min 255 (max 0 (fl (element st result [0, c, h, w] * 255)))"
    if "c < C" "h < H" "w < W" for c h w
    using f4 [of "flat_index result [0, c, h, w]"] flat_index4_mem(2) [OF assms(3) t that]
    by (simp add: element_def)
  have f6: "st' \<noteq> st \<longleftrightarrow>
              (\<exists>p\<in>set (view_positions result).
                 min 255 (max 0 (fl (st ! base result ! p * 255))) \<noteq> st ! base result ! p)"
  proof
    assume ne: "st' \<noteq> st"
    show "\<exists>p\<in>set (view_positions result).
                 min 255 (max 0 (fl (st ! base result ! p * 255))) \<noteq> st ! base result ! p"
    proof (rule ccontr)
      assume "\<not> ?thesis"
      then have same: "st' ! base result ! p = st ! base result ! p" for p
        using f4 [of p] by auto
      have buf: "st' ! base result = st ! base result"
        using f3 same by (intro nth_equalityI) simp_all
      have "st' ! b = st ! b" for b
        using buf f2 [of b] by (cases "b = base result") simp_all
      then have "st' = st" using f1 by (intro nth_equalityI) simp_all
      then show False using ne by simp
    qed
  next
    assume "\<exists>p\<in>set (view_positions result).
                 min 255 (max 0 (fl (st ! base result ! p * 255))) \<noteq> st ! base result ! p"
    then obtain p where p: "p \<in> set (view_positions result)"
      "min 255 (max 0 (fl (st ! base result ! p * 255))) \<noteq> st ! base result ! p"
      by blast
    then have "st' ! base result ! p \<noteq> st ! base result ! p" using f4 [of p] by simp
    then show "st' \<noteq> st" by auto
  qed
  show ?thesis using conv f1 f2 f3 f4 f5 f6 by blast
qed

theorem convert_result_to_image_mutates_input_witness:
  "valid_view [[1 / 2, - 1, 2, 1 / 4, 8421505 / 2147483648, 1 :: real]] (c_contiguous 0 [1, 2, 1, 3]) \<and>
   writeable (c_contiguous 0 [1, 2, 1, 3]) \<and>
   shape (c_contiguous 0 [1, 2, 1, 3]) = [1, 2, 1, 3] \<and>
   (\<exists>img st'.
      convert_result_to_image float32 [[1 / 2, - 1, 2, 1 / 4, 8421505 / 2147483648, 1]]
          (c_contiguous 0 [1, 2, 1, 3])
        = Inr (img, st') \<and>
      length st' = 1 \<and> length (st' ! 0) = 6 \<and> st' ! 0 ! 4 = 1 \<and>
      st' \<noteq> [[1 / 2, - 1, 2, 1 / 4, 8421505 / 2147483648, 1]])"
proof -
  let ?S = "[[1 / 2, - 1, 2, 1 / 4, 8421505 / 2147483648, 1 :: real]]"
  let ?A = "c_contiguous 0 [1, 2, 1, 3]"
  from convert_result_to_image_mutates_input [OF example_valid example_shape(2,1), of float32]
  obtain img st' where
    c: "convert_result_to_image float32 ?S ?A = Inr (img, st')"
    and l: "length st' = length ?S" "length (st' ! base ?A) = length (?S ! base ?A)"
    and f: "\<forall>p. st' ! base ?A ! p =
                  (if p \<in> set (view_positions ?A)
                   then min 255 (max 0 (float32 (?S ! base ?A ! p * 255)))
                   else ?S ! base ?A ! p)"
    and n: "st' \<noteq> ?S \<longleftrightarrow>
              (\<exists>p\<in>set (view_positions ?A).
                 min 255 (max 0 (float32 (?S ! base ?A ! p * 255))) \<noteq> ?S ! base ?A ! p)"
    by blast
  have b: "base ?A = 0" by (simp add: c_contiguous_def)
  have m: "(4::nat) \<in> set (view_positions ?A)" by code_simp
  have r: "float32 (2147483775 / 2147483648) = 1" using float32_rounds_down by simp
  have four: "st' ! 0 ! 4 = 1"
    using f [rule_format, of 4] m unfolding b by (simp add: r)
  have "min 255 (max 0 (float32 (?S ! base ?A ! 4 * 255))) \<noteq> ?S ! base ?A ! 4"
    unfolding b by (simp add: r)
  then have "st' \<noteq> ?S" using n m by blast
  then show ?thesis using example_valid example_shape c l four unfolding b by auto
qed

section \<open>Preprocessing\<close>

lemma contents_alloc:
  "alloc st v = (a, st') \<Longrightarrow> contents st' a = fresh_contents v"
  by (auto simp: alloc_def contents_def fresh_contents_def c_contiguous_def view_positions_def)

lemma prepare_input_img_run:
  assumes "prepare_input_img cvt rsz st img w h = (r, s)"
  shows "length st \<le> length s \<and> (\<forall>b<length st. s ! b = st ! b) \<and>
    (case cvt (contents st img) of
       None \<Rightarrow> r = Inl CvError
     | Some g \<Rightarrow>
        (case rsz (fresh_contents g) (w, h) of
           None \<Rightarrow> r = Inl CvError
         | Some v \<Rightarrow> (\<exists>t. r = Inr t \<and> base t < length s \<and>
                          contents s t = (1 # 1 # fst v, snd (fresh_contents v)))))"
proof (cases "cvt (contents st img)")
  case None
  then show ?thesis using assms by (auto simp: prepare_input_img_def bgr_to_gray_def)
next
  case (Some g)
  obtain a1 st1 where a1: "alloc st g = (a1, st1)" by (cases "alloc st g")
  have g: "bgr_to_gray cvt st img = (Inr a1, st1)"
    by (simp add: bgr_to_gray_def Some a1)
  have c1: "contents st1 a1 = fresh_contents g" using a1 by (rule contents_alloc)
  show ?thesis
  proof (cases "rsz (fresh_contents g) (w, h)")
    case None
    then have "r = Inl CvError" "s = st1"
      using assms by (simp_all add: prepare_input_img_def g cv2_resize_def c1)
    then show ?thesis using alloc_frame(1,3) [OF a1] Some None by simp
  next
    case v: (Some v)
    obtain a2 st2 where a2: "alloc st1 v = (a2, st2)" by (cases "alloc st1 v")
    have rs: "r = Inr (expand_dims0 (expand_dims0 a2))" "s = st2"
      using assms by (simp_all add: prepare_input_img_def g cv2_resize_def c1 v a2)
    have "contents st2 (expand_dims0 (expand_dims0 a2)) = (1 # 1 # fst v, snd (fresh_contents v))"
    proof -
      have "shape (expand_dims0 a2) = 1 # fst v"
        using alloc_frame(5) [OF a2] by (simp add: expand_dims0_def)
      then show ?thesis using contents_alloc [OF a2] by (simp add: contents_expand_dims0)
    qed
    moreover have "base (expand_dims0 (expand_dims0 a2)) < length st2"
      using alloc_frame(1,2) [OF a2] by (simp add: expand_dims0_def)
    moreover have "length st \<le> length st2" "\<forall>b<length st. st2 ! b = st ! b"
      using alloc_frame(1,3) [OF a1] alloc_frame(1,3) [OF a2] by simp_all
    ultimately show ?thesis using Some v rs by simp
  qed
qed

lemma input_data_elements:
  assumes "shape a = [H, W, C]" "length (strides a) = 3"
  shows "\<exists>data. input_data st a = Inr ([1, C, H, W], data) \<and> length data = C * H * W \<and>
           (\<forall>c<C. \<forall>h<H. \<forall>w<W.
              data ! ((c * H + h) * W + w) = real (unat (element st a [h, w, c])))"
proof -
  obtain s0 s1 s2 where s: "strides a = [s0, s1, s2]"
    using assms(2) by (auto simp: length_Suc_conv numeral_eq_Suc)
  let ?ps = "positions (offset a) [C, H, W] [s2, s0, s1]"
  let ?data = "map (\<lambda>p. real (unat (st ! base a ! p))) ?ps"
  have e: "input_data st a = Inr ([1, C, H, W], ?data)"
    by (simp add: input_data_def transpose_201_def assms(1) s astype_float32_def
        expand_dims0_def view_positions_def)
  have len: "length ?ps = C * H * W" by (rule length_positions3)
  have px: "?data ! ((c * H + h) * W + w) = real (unat (element st a [h, w, c]))"
    if "c < C" "h < H" "w < W" for c h w
  proof -
    have "(c * H + h) * W + w < Suc (c * H + h) * W" using that(3) by simp
    also have "\<dots> \<le> (Suc c * H) * W" using that(2) by (intro mult_le_mono1) simp
    also have "\<dots> \<le> (C * H) * W" using that(1) by (intro mult_le_mono1) simp
    finally have k: "(c * H + h) * W + w < length ?ps" using len by simp
    have "?ps ! ((c * H + h) * W + w) = offset a + c * s2 + h * s0 + w * s1"
      using that by (rule positions3_nth)
    also have "\<dots> = flat_index a [h, w, c]" by (simp add: flat_index_def s)
    finally show ?thesis using k by (simp add: element_def)
  qed
  show ?thesis using e len px by (intro exI [of _ ?data]) simp
qed

text \<open>
  C4. Preprocessing is pure and deterministic. Notebook 215 (grayscale conversion, resize,
  two axis expansions): a run leaves every buffer that existed before, and so the input
  Frame, as it was; a second run on the same Frame with the same target size raises the
  same error or returns a tensor with the same shape and entries, and leaves the first
  tensor as it was. Notebook 002 (axis reordering, axis expansion, cast): the tensor has
  shape (1, C, H, W), its entry at (0, c, h, w) is the Frame's entry at (h, w, c), and
  the store is only read. The OpenCV functions are parameters that compute a new array
  from the contents of their argument.
\<close>

theorem preprocessing_pure_deterministic:
  "(base img < length st \<and>
    prepare_input_img cvt rsz st img iw ih = (r1, s1) \<and>
    prepare_input_img cvt rsz s1 img iw ih = (r2, s2) \<longrightarrow>
      (\<forall>b<length st. s1 ! b = st ! b \<and> s2 ! b = st ! b) \<and>
      contents s1 img = contents st img \<and> contents s2 img = contents st img \<and>
      (case r1 of
         Inl e1 \<Rightarrow> r2 = Inl e1
       | Inr t1 \<Rightarrow> (\<exists>t2. r2 = Inr t2 \<and> contents s2 t2 = contents s1 t1 \<and>
                          contents s2 t1 = contents s1 t1))) \<and>
   (shape a = [H, W, C] \<and> length (strides a) = 3 \<longrightarrow>
      (\<exists>data. input_data st8 a = Inr ([1, C, H, W], data) \<and> length data = C * H * W \<and>
         (\<forall>c<C. \<forall>h<H. \<forall>w<W.
            data ! ((c * H + h) * W + w) = real (unat (element st8 a [h, w, c])))))"
proof (intro conjI impI)
  assume a: "base img < length st \<and>
    prepare_input_img cvt rsz st img iw ih = (r1, s1) \<and>
    prepare_input_img cvt rsz s1 img iw ih = (r2, s2)"
  note run1 = prepare_input_img_run [of cvt rsz st img iw ih r1 s1]
  note run2 = prepare_input_img_run [of cvt rsz s1 img iw ih r2 s2]
  have f1: "length st \<le> length s1" "\<forall>b<length st. s1 ! b = st ! b" using run1 a by simp_all
  have f2: "length s1 \<le> length s2" "\<forall>b<length s1. s2 ! b = s1 ! b" using run2 a by simp_all
  show "\<forall>b<length st. s1 ! b = st ! b \<and> s2 ! b = st ! b" using f1 f2 by simp
  show c1: "contents s1 img = contents st img" using a f1 by (intro contents_cong) simp
  have "contents s2 img = contents s1 img" using a f1 f2 by (intro contents_cong) simp
  then show c2: "contents s2 img = contents st img" using c1 by simp
  show "case r1 of
         Inl e1 \<Rightarrow> r2 = Inl e1
       | Inr t1 \<Rightarrow> (\<exists>t2. r2 = Inr t2 \<and> contents s2 t2 = contents s1 t1 \<and>
                          contents s2 t1 = contents s1 t1)"
  proof (cases "cvt (contents st img)")
    case None
    then show ?thesis using run1 run2 a c1 by simp
  next
    case g: (Some g)
    show ?thesis
    proof (cases "rsz (fresh_contents g) (iw, ih)")
      case None
      then show ?thesis using run1 run2 a c1 g by simp
    next
      case v: (Some v)
      obtain t1 where t1: "r1 = Inr t1" "base t1 < length s1"
        "contents s1 t1 = (1 # 1 # fst v, snd (fresh_contents v))"
        using run1 a g v by auto
      obtain t2 where t2: "r2 = Inr t2" "contents s2 t2 = (1 # 1 # fst v, snd (fresh_contents v))"
        using run2 a g v c1 by auto
      have "contents s2 t1 = contents s1 t1" using t1(2) f2 by (intro contents_cong) simp
      then show ?thesis using t1 t2 by simp
    qed
  qed
next
  assume "shape a = [H, W, C] \<and> length (strides a) = 3"
  then show "\<exists>data. input_data st8 a = Inr ([1, C, H, W], data) \<and> length data = C * H * W \<and>
         (\<forall>c<C. \<forall>h<H. \<forall>w<W.
            data ! ((c * H + h) * W + w) = real (unat (element st8 a [h, w, c])))"
    using input_data_elements [of a H W C st8] by simp
qed

lemma example_prepare_first:
  "prepare_input_img
     (\<lambda>v. Some ([fst v ! 0, fst v ! 1], map (\<lambda>k. snd v ! (3 * k)) [0..<fst v ! 0 * fst v ! 1]))
     (\<lambda>v (w, h). Some ([h, w], map (\<lambda>k. snd v ! (k mod length (snd v))) [0..<h * w]))
     [[10, 20, 30, 40, 50, 60 :: 8 word]] (c_contiguous 0 [1, 2, 3]) 3 2
   = (Inr \<lparr>base = 2, offset = 0, shape = [1, 1, 2, 3], strides = [0, 0, 3, 1],
          writeable = True\<rparr>,
      [[10, 20, 30, 40, 50, 60], [10, 40], [10, 40, 10, 40, 10, 40]])"
  by code_simp

lemma example_prepare_second:
  "prepare_input_img
     (\<lambda>v. Some ([fst v ! 0, fst v ! 1], map (\<lambda>k. snd v ! (3 * k)) [0..<fst v ! 0 * fst v ! 1]))
     (\<lambda>v (w, h). Some ([h, w], map (\<lambda>k. snd v ! (k mod length (snd v))) [0..<h * w]))
     [[10, 20, 30, 40, 50, 60 :: 8 word], [10, 40], [10, 40, 10, 40, 10, 40]]
     (c_contiguous 0 [1, 2, 3]) 3 2
   = (Inr \<lparr>base = 4, offset = 0, shape = [1, 1, 2, 3], strides = [0, 0, 3, 1],
          writeable = True\<rparr>,
      [[10, 20, 30, 40, 50, 60], [10, 40], [10, 40, 10, 40, 10, 40], [10, 40],
       [10, 40, 10, 40, 10, 40]])"
  by code_simp

theorem preprocessing_pure_deterministic_witness:
  "base (c_contiguous 0 [1, 2, 3]) < length [[10, 20, 30, 40, 50, 60 :: 8 word]] \<and>
   contents [[10, 20, 30, 40, 50, 60 :: 8 word], [10, 40], [10, 40, 10, 40, 10, 40], [10, 40],
             [10, 40, 10, 40, 10, 40]]
      \<lparr>base = 4, offset = 0, shape = [1, 1, 2, 3], strides = [0, 0, 3, 1],
          writeable = True\<rparr>
     = contents [[10, 20, 30, 40, 50, 60 :: 8 word], [10, 40], [10, 40, 10, 40, 10, 40]]
      \<lparr>base = 2, offset = 0, shape = [1, 1, 2, 3], strides = [0, 0, 3, 1],
          writeable = True\<rparr> \<and>
   contents [[10, 20, 30, 40, 50, 60 :: 8 word], [10, 40], [10, 40, 10, 40, 10, 40], [10, 40],
             [10, 40, 10, 40, 10, 40]] (c_contiguous 0 [1, 2, 3])
     = contents [[10, 20, 30, 40, 50, 60 :: 8 word]] (c_contiguous 0 [1, 2, 3]) \<and>
   shape (c_contiguous 0 [1, 2, 3]) = [1, 2, 3] \<and> length (strides (c_contiguous 0 [1, 2, 3])) = 3 \<and>
   (\<exists>data. input_data [[10, 20, 30, 40, 50, 60]] (c_contiguous 0 [1, 2, 3])
              = Inr ([1, 3, 1, 2], data) \<and> length data = 3 * 1 * 2)"
proof -
  have b: "base (c_contiguous 0 [1, 2, 3]) < length [[10, 20, 30, 40, 50, 60 :: 8 word]]"
    by (simp add: c_contiguous_def)
  have s: "shape (c_contiguous 0 [1, 2, 3]) = [1, 2, 3] \<and> length (strides (c_contiguous 0 [1, 2, 3])) = 3"
    by (simp add: c_contiguous_def)
  note t = preprocessing_pure_deterministic
    [of "c_contiguous 0 [1, 2, 3]" "[[10, 20, 30, 40, 50, 60 :: 8 word]]"
      "\<lambda>v. Some ([fst v ! 0, fst v ! 1], map (\<lambda>k. snd v ! (3 * k)) [0..<fst v ! 0 * fst v ! 1])"
      "\<lambda>v (w, h). Some ([h, w], map (\<lambda>k. snd v ! (k mod length (snd v))) [0..<h * w])"
      3 2
      "Inr \<lparr>base = 2, offset = 0, shape = [1, 1, 2, 3], strides = [0, 0, 3, 1],
          writeable = True\<rparr>"
      "[[10, 20, 30, 40, 50, 60], [10, 40], [10, 40, 10, 40, 10, 40]]"
      "Inr \<lparr>base = 4, offset = 0, shape = [1, 1, 2, 3], strides = [0, 0, 3, 1],
          writeable = True\<rparr>"
      "[[10, 20, 30, 40, 50, 60], [10, 40], [10, 40, 10, 40, 10, 40], [10, 40],
        [10, 40, 10, 40, 10, 40]]"
      "c_contiguous 0 [1, 2, 3]" 1 2 3 "[[10, 20, 30, 40, 50, 60]]"]
  show ?thesis
    using t b s example_prepare_first example_prepare_second by auto
qed

section \<open>The pipeline scheduler\<close>

lemma mset_occupied_update_Some:
  "i < length xs \<Longrightarrow> xs ! i = None \<Longrightarrow>
     mset (occupied (xs[i := Some k])) = add_mset k (mset (occupied xs))"
proof (induction xs arbitrary: i rule: occupied.induct)
  case 1
  then show ?case by simp
next
  case (2 xs)
  then show ?case by (cases i) simp_all
next
  case (3 j xs)
  then show ?case by (cases i) simp_all
qed

lemma mset_occupied_update_None:
  "i < length xs \<Longrightarrow> xs ! i = Some k \<Longrightarrow>
     add_mset k (mset (occupied (xs[i := None]))) = mset (occupied xs)"
proof (induction xs arbitrary: i rule: occupied.induct)
  case 1
  then show ?case by simp
next
  case (2 xs)
  then show ?case by (cases i) simp_all
next
  case (3 j xs)
  then show ?case by (cases i) simp_all
qed

lemma length_occupied_le: "length (occupied xs) \<le> length xs"
  by (induction xs rule: occupied.induct) simp_all

lemma occupied_not_full:
  "length (occupied xs) < length xs \<Longrightarrow> \<exists>i<length xs. xs ! i = None"
proof (induction xs rule: occupied.induct)
  case 1
  then show ?case by simp
next
  case (2 xs)
  then show ?case by auto
next
  case (3 j xs)
  then obtain i where "i < length xs" "xs ! i = None" by auto
  then show ?case by (intro exI [of _ "Suc i"]) simp
qed

lemma occupied_nonempty:
  "occupied xs \<noteq> [] \<Longrightarrow> \<exists>i<length xs. \<exists>k. xs ! i = Some k"
proof (induction xs rule: occupied.induct)
  case 1
  then show ?case by simp
next
  case (2 xs)
  then obtain i k where "i < length xs" "xs ! i = Some k" by auto
  then show ?case by (intro exI [of _ "Suc i"]) simp
next
  case (3 j xs)
  then show ?case by auto
qed

lemma occupied_mem:
  "i < length xs \<Longrightarrow> xs ! i = Some k \<Longrightarrow> k \<in> set (occupied xs)"
  using mset_occupied_update_None [of i xs k] by (metis union_single_eq_member set_mset_mset)

lemma flush_props:
  "flush engine c buf rend = (c', buf', rend', st') \<Longrightarrow> rend = [0..<c] \<Longrightarrow>
     rend' = [0..<c'] \<and> mset rend' + mset buf' = mset rend + mset buf \<and>
     c' + length buf' = c + length buf \<and> c \<le> c' \<and>
     (\<forall>j. c \<le> j \<and> j < c' \<longrightarrow> engine j = Result) \<and>
     (st' = Running \<longrightarrow> c' \<notin> set buf') \<and>
     (\<forall>k. st' = Aborted k \<longrightarrow> k = c' \<and> engine k = InferenceFailure \<and> c' \<in> set buf')"
proof (induction engine c buf rend rule: flush.induct)
  case (1 engine c buf rend)
  show ?case
  proof (cases "c \<in> set buf")
    case True
    show ?thesis
    proof (cases "engine c")
      case Result
      then have f: "flush engine (Suc c) (remove1 c buf) (rend @ [c]) = (c', buf', rend', st')"
        using "1.prems"(1) True by (simp add: flush.simps [of engine c buf])
      have r: "rend @ [c] = [0..<Suc c]" using "1.prems"(2) by simp
      note ih = "1.IH" [OF True Result f r]
      have ih1: "rend' = [0..<c']" using ih by blast
      have ih2: "mset rend' + mset buf' = mset (rend @ [c]) + mset (remove1 c buf)" using ih by blast
      have ih3: "c' + length buf' = Suc c + length (remove1 c buf)" using ih by blast
      have ih4: "Suc c \<le> c'" using ih by blast
      have ih5: "\<forall>j. Suc c \<le> j \<and> j < c' \<longrightarrow> engine j = Result" using ih by blast
      have ih6: "st' = Running \<longrightarrow> c' \<notin> set buf'" using ih by blast
      have ih7: "\<forall>k. st' = Aborted k \<longrightarrow> k = c' \<and> engine k = InferenceFailure \<and> c' \<in> set buf'"
        using ih by blast
      have "0 < length buf" using True by (rule length_pos_if_in_set)
      then have l: "Suc (length (remove1 c buf)) = length buf"
        using True by (simp add: length_remove1)
      have m: "mset (rend @ [c]) + mset (remove1 c buf) = mset rend + mset buf"
        using True by simp
      have j: "\<forall>j. c \<le> j \<and> j < c' \<longrightarrow> engine j = Result"
      proof (intro allI impI)
        fix j assume "c \<le> j \<and> j < c'"
        then show "engine j = Result" using ih5 Result by (cases "j = c") simp_all
      qed
      have "mset rend' + mset buf' = mset rend + mset buf" using ih2 m by (rule trans)
      moreover have "c' + length buf' = c + length buf" using ih3 l by simp
      moreover have "c \<le> c'" using ih4 by simp
      ultimately show ?thesis using ih1 j ih6 ih7 by blast
    next
      case InferenceFailure
      then have "c' = c" "buf' = buf" "rend' = rend" "st' = Aborted c"
        using "1.prems"(1) True by (auto simp: flush.simps [of engine c buf])
      then show ?thesis using "1.prems"(2) True InferenceFailure by auto
    qed
  next
    case False
    then have "c' = c" "buf' = buf" "rend' = rend" "st' = Running"
      using "1.prems"(1) by (auto simp: flush.simps [of engine c buf])
    then show ?thesis using "1.prems"(2) False by auto
  qed
qed

lemma sched_invD:
  assumes "sched_inv engine N M s"
  shows "length (slots s) = N" "next_frame s \<le> M" "rendered s = [0..<cursor s]"
    "mset (rendered s) + mset (buffer s) + mset (occupied (slots s)) = mset [0..<next_frame s]"
    "status s = Running \<longrightarrow> cursor s \<notin> set (buffer s)"
    "completed s = cursor s + length (buffer s)"
    "\<forall>j<cursor s. engine j = Result"
    "\<forall>k. status s = Aborted k \<longrightarrow> k = cursor s \<and> engine k = InferenceFailure \<and> k < next_frame s"
  using assms unfolding sched_inv_def by blast+

lemma sched_invI:
  assumes "length (slots s) = N" "next_frame s \<le> M" "rendered s = [0..<cursor s]"
    "mset (rendered s) + mset (buffer s) + mset (occupied (slots s)) = mset [0..<next_frame s]"
    "status s = Running \<longrightarrow> cursor s \<notin> set (buffer s)"
    "completed s = cursor s + length (buffer s)"
    "\<forall>j<cursor s. engine j = Result"
    "\<forall>k. status s = Aborted k \<longrightarrow> k = cursor s \<and> engine k = InferenceFailure \<and> k < next_frame s"
  shows "sched_inv engine N M s"
  using assms unfolding sched_inv_def by blast

lemma mset_upt_Suc0: "mset [0..<Suc n] = add_mset n (mset [0..<n])"
  by (simp del: mset_upt)

lemma occupied_replicate_None: "occupied (replicate N None) = []"
  by (induction N) simp_all

lemma init_inv: "sched_inv engine N M (init N)"
  by (intro sched_invI) (simp_all add: init_def occupied_replicate_None)

lemma step_Aborted: "status s = Aborted k \<Longrightarrow> step engine M s ev = None"
  by (simp add: step_def)

lemma step_Submit:
  "step engine M s (Submit sl) = Some s' \<longleftrightarrow>
     status s = Running \<and> next_frame s < M \<and> sl < length (slots s) \<and> slots s ! sl = None \<and>
     s' = s\<lparr>slots := (slots s)[sl := Some (next_frame s)], next_frame := Suc (next_frame s)\<rparr>"
  by (auto simp: step_def split: run_status.splits)

lemma step_Complete:
  "step engine M s (Complete sl) =
     (if status s = Running \<and> sl < length (slots s) then
        (case slots s ! sl of
           None \<Rightarrow> None
         | Some k \<Rightarrow>
            if k = cursor s then
              (case engine k of
                 InferenceFailure \<Rightarrow> Some (s\<lparr>status := Aborted k\<rparr>)
               | Result \<Rightarrow>
                  (case flush engine (Suc k) (buffer s) (rendered s @ [k]) of
                     (c, buf, rend, st) \<Rightarrow>
                       Some (s\<lparr>slots := (slots s)[sl := None], cursor := c, buffer := buf,
                                rendered := rend, completed := Suc (completed s),
                                status := st\<rparr>)))
            else if cursor s < k then
              Some (s\<lparr>slots := (slots s)[sl := None], buffer := buffer s @ [k],
                       completed := Suc (completed s)\<rparr>)
            else None)
      else None)"
  by (cases "status s") (simp_all add: step_def)

text \<open>The three ways a completion can be processed.\<close>

lemma step_Complete_cases:
  assumes "step engine M s (Complete sl) = Some s'"
  obtains
    (fail) k where "status s = Running" "sl < length (slots s)" "slots s ! sl = Some k"
      "k = cursor s" "engine k = InferenceFailure" "s' = s\<lparr>status := Aborted k\<rparr>"
  | (emit) k c buf rend st where "status s = Running" "sl < length (slots s)"
      "slots s ! sl = Some k" "k = cursor s" "engine k = Result"
      "flush engine (Suc k) (buffer s) (rendered s @ [k]) = (c, buf, rend, st)"
      "s' = s\<lparr>slots := (slots s)[sl := None], cursor := c, buffer := buf,
                rendered := rend, completed := Suc (completed s), status := st\<rparr>"
  | (hold) k where "status s = Running" "sl < length (slots s)" "slots s ! sl = Some k"
      "cursor s < k"
      "s' = s\<lparr>slots := (slots s)[sl := None], buffer := buffer s @ [k],
                completed := Suc (completed s)\<rparr>"
proof -
  have r: "status s = Running" "sl < length (slots s)"
    using assms unfolding step_Complete by (simp_all split: if_splits)
  then obtain k where k: "slots s ! sl = Some k"
    using assms unfolding step_Complete by (cases "slots s ! sl") simp_all
  show ?thesis
  proof (cases "k = cursor s")
    case True
    show ?thesis
    proof (cases "engine k")
      case InferenceFailure
      then have "s' = s\<lparr>status := Aborted k\<rparr>"
        using assms r k True unfolding step_Complete by simp
      then show ?thesis using fail r k True InferenceFailure by blast
    next
      case Result
      obtain c buf rend st where f: "flush engine (Suc k) (buffer s) (rendered s @ [k]) = (c, buf, rend, st)"
        by (cases "flush engine (Suc k) (buffer s) (rendered s @ [k])")
      then have "s' = s\<lparr>slots := (slots s)[sl := None], cursor := c, buffer := buf,
                rendered := rend, completed := Suc (completed s), status := st\<rparr>"
        using assms r k True Result unfolding step_Complete by simp
      then show ?thesis using emit r k True Result f by blast
    qed
  next
    case False
    then have "cursor s < k \<and> s' = s\<lparr>slots := (slots s)[sl := None], buffer := buffer s @ [k],
                completed := Suc (completed s)\<rparr>"
      using assms r k unfolding step_Complete by (simp split: if_splits)
    then show ?thesis using hold r k by blast
  qed
qed

lemma step_inv:
  assumes "sched_inv engine N M s" "step engine M s ev = Some s'"
  shows "sched_inv engine N M s'"
proof (cases ev)
  case (Submit sl)
  then have st: "status s = Running" "next_frame s < M" "sl < length (slots s)" "slots s ! sl = None"
    "s' = s\<lparr>slots := (slots s)[sl := Some (next_frame s)], next_frame := Suc (next_frame s)\<rparr>"
    using assms(2) by (simp_all add: step_Submit)
  note i = sched_invD [OF assms(1)]
  have o: "mset (occupied ((slots s)[sl := Some (next_frame s)])) = add_mset (next_frame s) (mset (occupied (slots s)))"
    using st(3,4) by (rule mset_occupied_update_Some)
  show ?thesis
  proof (rule sched_invI)
    show "mset (rendered s') + mset (buffer s') + mset (occupied (slots s')) = mset [0..<next_frame s']"
      unfolding st(5) using i(4) o by (simp add: mset_upt_Suc0 del: mset_upt)
  qed (use i st(1,2) in \<open>simp_all add: st(5)\<close>)
next
  case (Complete sl)
  note i = sched_invD [OF assms(1)]
  from assms(2) [unfolded Complete] show ?thesis
  proof (cases rule: step_Complete_cases)
    case (fail k)
    have "k \<in> set (occupied (slots s))" using fail(2,3) by (rule occupied_mem)
    then have "k \<in># mset (rendered s) + mset (buffer s) + mset (occupied (slots s))" by simp
    then have "k < next_frame s" unfolding i(4) by simp
    then show ?thesis using i fail(4,5) unfolding fail(6) by (intro sched_invI) simp_all
  next
    case (emit k c buf rend st)
    have occ: "add_mset k (mset (occupied ((slots s)[sl := None]))) = mset (occupied (slots s))"
      using emit(2,3) by (rule mset_occupied_update_None)
    have d: "mset (rendered s) + mset (buffer s) + add_mset k (mset (occupied ((slots s)[sl := None])))
               = mset [0..<next_frame s]"
      unfolding occ by (rule i(4))
    have "rendered s @ [k] = [0..<Suc k]" using i(3) emit(4) by simp
    note fp = flush_props [OF emit(6) this]
    have p: "rend = [0..<c]" "mset rend + mset buf = mset (rendered s @ [k]) + mset (buffer s)"
      "c + length buf = Suc k + length (buffer s)" "Suc k \<le> c"
      "\<forall>j. Suc k \<le> j \<and> j < c \<longrightarrow> engine j = Result"
      "st = Running \<longrightarrow> c \<notin> set buf"
      "\<forall>k. st = Aborted k \<longrightarrow> k = c \<and> engine k = InferenceFailure \<and> c \<in> set buf"
      using fp by blast+
    have d': "mset rend + mset buf + mset (occupied ((slots s)[sl := None])) = mset [0..<next_frame s]"
      unfolding p(2) d [symmetric] by simp
    show ?thesis
    proof (rule sched_invI)
      show "mset (rendered s') + mset (buffer s') + mset (occupied (slots s')) = mset [0..<next_frame s']"
        using d' by (simp add: emit(7) del: mset_upt)
      show "completed s' = cursor s' + length (buffer s')"
        using p(3) i(6) emit(4) by (simp add: emit(7))
      show "\<forall>j<cursor s'. engine j = Result"
      proof (intro allI impI)
        fix j assume "j < cursor s'"
        then have jc: "j < c" by (simp add: emit(7))
        consider "j < k" | "j = k" | "Suc k \<le> j" by linarith
        then show "engine j = Result"
        proof cases
          case 1
          then show ?thesis using i(7) emit(4) by simp
        next
          case 2
          then show ?thesis using emit(5) by simp
        next
          case 3
          then show ?thesis using p(5) jc by simp
        qed
      qed
      show "\<forall>k. status s' = Aborted k \<longrightarrow> k = cursor s' \<and> engine k = InferenceFailure \<and> k < next_frame s'"
      proof (intro allI impI)
        fix k' assume "status s' = Aborted k'"
        then have a: "st = Aborted k'" by (simp add: emit(7))
        then have b: "k' = c" "engine k' = InferenceFailure" "c \<in> set buf" using p(7) by blast+
        have "c \<in># mset rend + mset buf + mset (occupied ((slots s)[sl := None]))" using b(3) by simp
        then have "c < next_frame s" unfolding d' by simp
        then show "k' = cursor s' \<and> engine k' = InferenceFailure \<and> k' < next_frame s'"
          using b by (simp add: emit(7))
      qed
    qed (use i p(1,6) in \<open>simp_all add: emit(7)\<close>)
  next
    case (hold k)
    have occ: "add_mset k (mset (occupied ((slots s)[sl := None]))) = mset (occupied (slots s))"
      using hold(2,3) by (rule mset_occupied_update_None)
    have d: "mset (rendered s) + mset (buffer s) + add_mset k (mset (occupied ((slots s)[sl := None])))
               = mset [0..<next_frame s]"
      unfolding occ by (rule i(4))
    show ?thesis
    proof (rule sched_invI)
      show "mset (rendered s') + mset (buffer s') + mset (occupied (slots s')) = mset [0..<next_frame s']"
        using d by (simp add: hold(5) del: mset_upt)
    qed (use i hold(1,4) in \<open>simp_all add: hold(5)\<close>)
  qed
qed

lemma run_events_inv:
  "sched_inv engine N M s \<Longrightarrow> run_events engine M s evs = Some s' \<Longrightarrow> sched_inv engine N M s'"
proof (induction evs arbitrary: s)
  case Nil
  then show ?case by simp
next
  case (Cons ev evs)
  then obtain s1 where s1: "step engine M s ev = Some s1" "run_events engine M s1 evs = Some s'"
    by (auto split: option.splits)
  from Cons.IH [OF step_inv [OF Cons.prems(1) s1(1)] s1(2)] show ?case .
qed

lemma reachable_inv: "run_events engine M (init N) evs = Some s \<Longrightarrow> sched_inv engine N M s"
  using run_events_inv [OF init_inv] .

lemma inv_in_flight_ge_cursor:
  assumes "sched_inv engine N M s" "k \<in> set (occupied (slots s))"
  shows "cursor s \<le> k" "k < next_frame s"
proof -
  note i = sched_invD [OF assms(1)]
  have "k \<in># mset (rendered s) + mset (buffer s) + mset (occupied (slots s))" using assms(2) by simp
  then have "k \<in># mset [0..<next_frame s]" unfolding i(4) .
  then show "k < next_frame s" by simp
  have "distinct [0..<next_frame s]" by simp
  then have "count (mset [0..<next_frame s]) k \<le> 1"
    unfolding distinct_count_atmost_1 by (simp del: mset_upt)
  then have "count (mset (rendered s)) k + count (mset (buffer s)) k + count (mset (occupied (slots s))) k \<le> 1"
    unfolding i(4) [symmetric] by simp
  moreover have "0 < count (mset (occupied (slots s))) k"
    unfolding count_greater_zero_iff using assms(2) by simp
  ultimately have "count (mset (rendered s)) k = 0" by linarith
  then have "k \<notin> set [0..<cursor s]" unfolding i(3) [symmetric] by (simp add: count_eq_zero_iff)
  then show "cursor s \<le> k" by simp
qed

lemma inv_sizes:
  assumes "sched_inv engine N M s"
  shows "cursor s + length (buffer s) + length (occupied (slots s)) = next_frame s"
proof -
  note i = sched_invD [OF assms(1)]
  have "size (mset (rendered s) + mset (buffer s) + mset (occupied (slots s))) = size (mset [0..<next_frame s])"
    unfolding i(4) ..
  then show ?thesis unfolding i(3) by (simp del: mset_upt)
qed

lemma inv_cursor_in_flight:
  assumes "sched_inv engine N M s" "status s = Running" "cursor s < next_frame s"
  shows "cursor s \<in> set (occupied (slots s))"
proof -
  note i = sched_invD [OF assms(1)]
  have "cursor s \<in># mset [0..<next_frame s]" using assms(3) by simp
  then have "cursor s \<in># mset (rendered s) + mset (buffer s) + mset (occupied (slots s))"
    unfolding i(4) .
  moreover have "cursor s \<notin> set (rendered s)" unfolding i(3) by simp
  moreover have "cursor s \<notin> set (buffer s)" using i(5) assms(2) by simp
  ultimately show ?thesis by simp
qed

lemma step_weight:
  assumes "step engine M s ev = Some s'"
  shows "next_frame s + completed s + (if status s = Running then 0 else 1)
           < next_frame s' + completed s' + (if status s' = Running then 0 else 1)"
proof (cases ev)
  case (Submit sl)
  then show ?thesis using assms by (auto simp: step_Submit)
next
  case (Complete sl)
  from assms [unfolded Complete] show ?thesis
    by (cases rule: step_Complete_cases) simp_all
qed

lemma run_events_weight:
  "run_events engine M s evs = Some s' \<Longrightarrow>
     next_frame s + completed s + (if status s = Running then 0 else 1) + length evs
       \<le> next_frame s' + completed s' + (if status s' = Running then 0 else 1)"
proof (induction evs arbitrary: s)
  case Nil
  then show ?case by simp
next
  case (Cons ev evs)
  then obtain s1 where s1: "step engine M s ev = Some s1" "run_events engine M s1 evs = Some s'"
    by (auto split: option.splits)
  from step_weight [OF s1(1)] Cons.IH [OF s1(2)] show ?case by simp
qed

lemma inv_weight_bound:
  assumes "sched_inv engine N M s"
  shows "next_frame s + completed s \<le> 2 * M" "cursor s \<le> next_frame s"
  using sched_invD(2,6) [OF assms] inv_sizes [OF assms] by simp_all

lemma length_occupied_idle:
  assumes "i < length xs" "xs ! i = None"
  shows "length (occupied xs) < length xs"
proof -
  have "size (mset (occupied (xs[i := Some 0]))) = size (add_mset 0 (mset (occupied xs)))"
    using mset_occupied_update_Some [OF assms, of 0] by simp
  then have "Suc (length (occupied xs)) = length (occupied (xs[i := Some 0]))" by simp
  also have "\<dots> \<le> length (xs[i := Some 0])" by (rule length_occupied_le)
  finally show ?thesis by simp
qed

lemma progress:
  assumes "sched_inv engine N M s" "0 < N" "status s = Running" "\<not> finished M s"
  shows "\<exists>ev s'. step engine M s ev = Some s'"
proof (cases "next_frame s < M \<and> length (occupied (slots s)) < length (slots s)")
  case True
  then obtain i where "i < length (slots s)" "slots s ! i = None"
    using occupied_not_full by blast
  then have "step engine M s (Submit i) =
      Some (s\<lparr>slots := (slots s)[i := Some (next_frame s)], next_frame := Suc (next_frame s)\<rparr>)"
    using True assms(3) by (simp add: step_Submit)
  then show ?thesis by blast
next
  case False
  note i = sched_invD [OF assms(1)]
  have ne: "occupied (slots s) \<noteq> []"
  proof (cases "next_frame s < M")
    case True
    then have "length (occupied (slots s)) = N"
      using False length_occupied_le [of "slots s"] i(1) by simp
    then show ?thesis using assms(2) by auto
  next
    case F: False
    then have nf: "next_frame s = M" using i(2) by simp
    show ?thesis
    proof
      assume e: "occupied (slots s) = []"
      then have "buffer s \<noteq> []" using assms(3,4) nf by (simp add: finished_def)
      then have "cursor s < next_frame s" using inv_sizes [OF assms(1)] e by (cases "buffer s") simp_all
      then have "cursor s \<in> set (occupied (slots s))"
        using assms(1,3) by (intro inv_cursor_in_flight)
      then show False using e by simp
    qed
  qed
  then obtain sl k where k: "sl < length (slots s)" "slots s ! sl = Some k"
    using occupied_nonempty by blast
  then have "k \<in> set (occupied (slots s))" by (rule occupied_mem)
  then have "cursor s \<le> k" using assms(1) by (intro inv_in_flight_ge_cursor(1))
  then have "step engine M s (Complete sl) \<noteq> None"
    unfolding step_Complete using k assms(3)
    by (simp split: outcome.splits prod.splits)
  then show ?thesis by blast
qed

lemma run_to_end:
  assumes "0 < N"
  shows "sched_inv engine N M s \<Longrightarrow>
           \<exists>evs s'. run_events engine M s evs = Some s' \<and> (finished M s' \<or> status s' \<noteq> Running)"
proof (induction "2 * M + 1 - (next_frame s + completed s + (if status s = Running then 0 else 1))"
    arbitrary: s rule: less_induct)
  case less
  show ?case
  proof (cases "finished M s \<or> status s \<noteq> Running")
    case True
    then have "run_events engine M s [] = Some s \<and> (finished M s \<or> status s \<noteq> Running)" by simp
    then show ?thesis by blast
  next
    case False
    then obtain ev s1 where s1: "step engine M s ev = Some s1"
      using progress [OF less.prems assms] by blast
    have inv1: "sched_inv engine N M s1" using less.prems s1 by (rule step_inv)
    have "next_frame s1 + completed s1 + (if status s1 = Running then 0 else 1) \<le> 2 * M + 1"
      using inv_weight_bound(1) [OF inv1] by simp
    then have "2 * M + 1 - (next_frame s1 + completed s1 + (if status s1 = Running then 0 else 1))
                 < 2 * M + 1 - (next_frame s + completed s + (if status s = Running then 0 else 1))"
      using step_weight [OF s1] by linarith
    from less.hyps [OF this inv1] obtain evs s' where
      r: "run_events engine M s1 evs = Some s'" "finished M s' \<or> status s' \<noteq> Running"
      by blast
    have "run_events engine M s (ev # evs) = Some s'" using s1 r(1) by simp
    then show ?thesis using r(2) by blast
  qed
qed

lemma finished_all_rendered:
  assumes "sched_inv engine N M s" "finished M s"
  shows "cursor s = M" "rendered s = [0..<M]"
proof -
  show "cursor s = M" using inv_sizes [OF assms(1)] assms(2) by (simp add: finished_def)
  then show "rendered s = [0..<M]" using sched_invD(3) [OF assms(1)] by simp
qed

lemma no_failure_running:
  assumes "sched_inv engine N M s" "\<forall>k<M. engine k = Result"
  shows "status s = Running"
proof (cases "status s")
  case Running
  then show ?thesis .
next
  case (Aborted k)
  then have "engine k = InferenceFailure" "k < next_frame s"
    using sched_invD(8) [OF assms(1)] by blast+
  then show ?thesis using assms(2) sched_invD(2) [OF assms(1)] by auto
qed

lemma example_run_in_order:
  "run_events (\<lambda>k. Result) 4 (init 3)
     [Submit 0, Submit 1, Submit 2, Complete 2, Complete 1, Submit 2, Complete 0, Complete 2]
   = Some \<lparr>slots = [None, None, None], next_frame = 4, cursor = 4, buffer = [],
            rendered = [0, 1, 2, 3], completed = 4, status = Running\<rparr>"
  by code_simp

lemma example_run_bound:
  "run_events (\<lambda>k. Result) 5 (init 2) [Submit 0, Submit 1, Complete 1]
   = Some \<lparr>slots = [Some 0, None], next_frame = 2, cursor = 0, buffer = [1],
            rendered = [], completed = 1, status = Running\<rparr>"
  by code_simp

lemma example_run_abort:
  "run_events (\<lambda>k. if k = 4 then InferenceFailure else Result) 10 (init 3)
     [Submit 0, Submit 1, Submit 2, Complete 2, Complete 0, Complete 1, Submit 0, Submit 1,
      Submit 2, Complete 1, Complete 2, Complete 0]
   = Some \<lparr>slots = [None, None, None], next_frame = 6, cursor = 4, buffer = [4, 5],
            rendered = [0, 1, 2, 3], completed = 6, status = Aborted 4\<rparr>"
  by code_simp

text \<open>
  C1. For every concurrency bound N and every frame count M, whatever the order in which
  the in-flight requests complete, the render calls of a run of the pipeline are the
  Frame indices 0, 1, ... in strictly increasing order, each once; a run that has
  terminated has made exactly M render calls; a run that has not terminated can go on
  (with at least one slot) and no run has more than 2 M events, so every run that is
  carried on as long as possible terminates with exactly M render calls. Here the engine
  answers every request with a result.
\<close>

theorem live_inference_renders_each_frame_in_order:
  assumes "\<forall>k<M. engine k = Result"
  shows "(\<forall>evs s. run_events engine M (init N) evs = Some s \<longrightarrow>
            status s = Running \<and> rendered s = [0..<cursor s] \<and> cursor s \<le> M \<and>
            sorted_wrt (<) (rendered s) \<and> distinct (rendered s) \<and> length evs \<le> 2 * M \<and>
            (finished M s \<longrightarrow> rendered s = [0..<M] \<and> length (rendered s) = M) \<and>
            (0 < N \<and> \<not> finished M s \<longrightarrow> (\<exists>ev s'. step engine M s ev = Some s'))) \<and>
         (0 < N \<longrightarrow> (\<exists>evs s. run_events engine M (init N) evs = Some s \<and> finished M s))"
proof (intro conjI allI impI)
  fix evs s
  assume run: "run_events engine M (init N) evs = Some s"
  then have inv: "sched_inv engine N M s" by (rule reachable_inv)
  show st: "status s = Running" using inv assms by (rule no_failure_running)
  show r: "rendered s = [0..<cursor s]" using inv by (rule sched_invD(3))
  show "cursor s \<le> M" using inv_weight_bound(2) [OF inv] sched_invD(2) [OF inv] by simp
  show "sorted_wrt (<) (rendered s)" unfolding r by simp
  show "distinct (rendered s)" unfolding r by simp
  show "length evs \<le> 2 * M"
    using run_events_weight [OF run] inv_weight_bound(1) [OF inv] st by (simp add: init_def)
  show "rendered s = [0..<M]" if "finished M s" using inv that by (rule finished_all_rendered(2))
  then show "length (rendered s) = M" if "finished M s" using that by simp
  show "\<exists>ev s'. step engine M s ev = Some s'" if "0 < N \<and> \<not> finished M s"
    using progress [OF inv _ st] that by blast
next
  assume "0 < N"
  from run_to_end [OF this init_inv, of engine M] obtain evs s where
    r: "run_events engine M (init N) evs = Some s" "finished M s \<or> status s \<noteq> Running"
    by blast
  have "status s = Running" using reachable_inv [OF r(1)] assms by (rule no_failure_running)
  then show "\<exists>evs s. run_events engine M (init N) evs = Some s \<and> finished M s"
    using r by blast
qed

theorem live_inference_renders_each_frame_in_order_witness:
  "list_all (\<lambda>k. (\<lambda>k. Result) k = Result) [0..<4] \<and>
   run_events (\<lambda>k. Result) 4 (init 3)
     [Submit 0, Submit 1, Submit 2, Complete 2, Complete 1, Submit 2, Complete 0, Complete 2]
   = Some \<lparr>slots = [None, None, None], next_frame = 4, cursor = 4, buffer = [],
            rendered = [0, 1, 2, 3], completed = 4, status = Running\<rparr> \<and>
   finished 4 \<lparr>slots = [None, None, None], next_frame = 4, cursor = 4, buffer = [],
            rendered = [0, 1, 2, 3], completed = 4, status = Running\<rparr> \<and>
   rendered \<lparr>slots = [None, None, None], next_frame = 4, cursor = 4, buffer = [],
            rendered = [0, 1, 2, 3], completed = 4, status = Running\<rparr> = [0..<4] \<and>
   (0::nat) < 3 \<and>
   (\<exists>evs s. run_events (\<lambda>k. Result) 4 (init 3) evs = Some s \<and> finished 4 s)"
proof -
  have h: "\<forall>k<4. (\<lambda>k. Result) k = Result" by simp
  have f: "finished 4 \<lparr>slots = [None, None, None], next_frame = 4, cursor = 4, buffer = [],
            rendered = [0, 1, 2, 3], completed = 4, status = Running\<rparr>"
    by (simp add: finished_def)
  have l: "list_all (\<lambda>k. (\<lambda>k. Result) k = Result) [0..<4]" by (simp add: list_all_iff)
  have p: "(0::nat) < 3" by simp
  note t = live_inference_renders_each_frame_in_order [OF h, of 3]
  have e: "\<exists>evs s. run_events (\<lambda>k. Result) 4 (init 3) evs = Some s \<and> finished 4 s"
    using t p by blast
  have r: "rendered \<lparr>slots = [None, None, None], next_frame = 4, cursor = 4, buffer = [],
            rendered = [0, 1, 2, 3], completed = 4, status = Running\<rparr> = [0..<4]"
    using t example_run_in_order f by blast
  show ?thesis using l example_run_in_order f r p e by blast
qed

text \<open>
  C2. At every instant of a run with concurrency bound N at most N requests are in the
  Submitted state. A Frame is submitted only to an Idle slot, so never when N requests are
  Submitted; and when Frame i + N is submitted, more than i earlier requests have
  completed and freed their slots.
\<close>

theorem at_most_N_requests_submitted:
  "\<forall>evs s. run_events engine M (init N) evs = Some s \<longrightarrow>
      length (occupied (slots s)) \<le> N \<and>
      (\<forall>sl s'. step engine M s (Submit sl) = Some s' \<longrightarrow>
          length (occupied (slots s)) < N \<and> length (occupied (slots s')) \<le> N \<and>
          (\<forall>i. next_frame s = i + N \<longrightarrow> i < completed s)) \<and>
      (length (occupied (slots s)) = N \<longrightarrow> (\<forall>sl. step engine M s (Submit sl) = None))"
proof (intro allI impI conjI)
  fix evs s
  assume run: "run_events engine M (init N) evs = Some s"
  then have inv: "sched_inv engine N M s" by (rule reachable_inv)
  note i = sched_invD [OF inv]
  show "length (occupied (slots s)) \<le> N" using length_occupied_le [of "slots s"] i(1) by simp
  {
    fix sl s'
    assume sub: "step engine M s (Submit sl) = Some s'"
    then have idle: "sl < length (slots s)" "slots s ! sl = None" by (simp_all add: step_Submit)
    then show lt: "length (occupied (slots s)) < N" using length_occupied_idle i(1) by metis
    have "sched_inv engine N M s'" using inv sub by (rule step_inv)
    then show "length (occupied (slots s')) \<le> N"
      using length_occupied_le [of "slots s'"] sched_invD(1) by metis
    fix j
    assume "next_frame s = j + N"
    then show "j < completed s" using inv_sizes [OF inv] i(6) lt by linarith
  }
  fix sl
  assume full: "length (occupied (slots s)) = N"
  show "step engine M s (Submit sl) = None"
  proof (cases "step engine M s (Submit sl)")
    case None
    then show ?thesis .
  next
    case (Some s')
    then have "sl < length (slots s)" "slots s ! sl = None" by (simp_all add: step_Submit)
    then have "length (occupied (slots s)) < N" using length_occupied_idle i(1) by metis
    then show ?thesis using full by simp
  qed
qed

theorem at_most_N_requests_submitted_witness:
  "run_events (\<lambda>k. Result) 5 (init 2) [Submit 0, Submit 1, Complete 1]
   = Some \<lparr>slots = [Some 0, None], next_frame = 2, cursor = 0, buffer = [1],
            rendered = [], completed = 1, status = Running\<rparr> \<and>
   step (\<lambda>k. Result) 5 \<lparr>slots = [Some 0, None], next_frame = 2, cursor = 0, buffer = [1],
            rendered = [], completed = 1, status = Running\<rparr> (Submit 1)
   = Some \<lparr>slots = [Some 0, Some 2], next_frame = 3, cursor = 0, buffer = [1],
            rendered = [], completed = 1, status = Running\<rparr> \<and>
   next_frame \<lparr>slots = [Some 0, None], next_frame = 2, cursor = 0, buffer = [1],
            rendered = [], completed = 1, status = Running\<rparr> = 0 + 2 \<and>
   0 < completed \<lparr>slots = [Some 0, None], next_frame = 2, cursor = 0, buffer = [1],
            rendered = [], completed = 1, status = Running\<rparr> \<and>
   length (occupied (slots \<lparr>slots = [Some 0, None], next_frame = 2, cursor = 0, buffer = [1],
            rendered = [], completed = 1, status = Running\<rparr>)) < 2"
proof -
  have s: "step (\<lambda>k. Result) 5 \<lparr>slots = [Some 0, None], next_frame = 2, cursor = 0, buffer = [1],
            rendered = [], completed = 1, status = Running\<rparr> (Submit 1)
   = Some \<lparr>slots = [Some 0, Some 2], next_frame = 3, cursor = 0, buffer = [1],
            rendered = [], completed = 1, status = Running\<rparr>"
    by (simp add: step_def)
  have n: "next_frame \<lparr>slots = [Some 0, None], next_frame = 2, cursor = 0, buffer = [1],
            rendered = [], completed = 1, status = Running\<rparr> = 0 + 2"
    by simp
  show ?thesis
    using at_most_N_requests_submitted [of "\<lambda>k. Result" 5 2] example_run_bound s n
    by blast
qed

text \<open>
  C6. In fail-fast mode, if the engine fails the request bound to Frame k of a run of
  M > k frames (and no earlier one), the run never terminates normally: it aborts, after
  rendering exactly Frames 0 to k - 1, with an error that carries index k; Frame k and the
  later Frames are never rendered, and an aborted run takes no further step. With at least
  one slot a run that has not aborted can always go on, so every run carried on as long as
  possible ends in that abort.
\<close>

theorem fail_fast_aborts_at_first_failure:
  assumes "k < M" "engine k = InferenceFailure" "\<forall>j<k. engine j = Result"
  shows "(\<forall>evs s. run_events engine M (init N) evs = Some s \<longrightarrow>
            rendered s = [0..<cursor s] \<and> cursor s \<le> k \<and> k \<notin> set (rendered s) \<and>
            (\<forall>j\<in>set (rendered s). j < k) \<and> \<not> finished M s \<and>
            (\<forall>e. status s = Aborted e \<longrightarrow>
               e = k \<and> rendered s = [0..<k] \<and> (\<forall>ev. step engine M s ev = None)) \<and>
            (0 < N \<and> status s = Running \<longrightarrow> (\<exists>ev s'. step engine M s ev = Some s')) \<and>
            length evs \<le> 2 * M + 1) \<and>
         (0 < N \<longrightarrow>
            (\<exists>evs s. run_events engine M (init N) evs = Some s \<and> status s = Aborted k \<and>
               rendered s = [0..<k]))"
proof -
  have reach: "rendered s = [0..<cursor s] \<and> cursor s \<le> k \<and> \<not> finished M s \<and>
      (\<forall>e. status s = Aborted e \<longrightarrow> e = k \<and> rendered s = [0..<k])"
    if inv: "sched_inv engine N M s" for s
  proof -
    note i = sched_invD [OF inv]
    have c: "cursor s \<le> k"
    proof (rule ccontr)
      assume "\<not> cursor s \<le> k"
      then have "engine k = Result" using i(7) by simp
      then show False using assms(2) by simp
    qed
    have nf: "\<not> finished M s"
    proof
      assume "finished M s"
      then have "cursor s = M" using inv finished_all_rendered(1) by blast
      then show False using c assms(1) by simp
    qed
    have ab: "e = k \<and> rendered s = [0..<k]" if "status s = Aborted e" for e
    proof -
      have e: "e = cursor s" "engine e = InferenceFailure" using i(8) that by blast+
      have "\<not> e < k" using assms(3) e(2) by auto
      then have "e = k" using c e(1) by simp
      then show ?thesis using i(3) e(1) by simp
    qed
    show ?thesis using i(3) c nf ab by blast
  qed
  show ?thesis
  proof (intro conjI allI impI ballI)
    fix evs s
    assume run: "run_events engine M (init N) evs = Some s"
    then have inv: "sched_inv engine N M s" by (rule reachable_inv)
    note r = reach [OF inv]
    show r1: "rendered s = [0..<cursor s]" using r by blast
    show r2: "cursor s \<le> k" using r by blast
    show "k \<notin> set (rendered s)" unfolding r1 using r2 by simp
    show "j < k" if "j \<in> set (rendered s)" for j using that r2 unfolding r1 by simp
    show nf: "\<not> finished M s" using r by blast
    show "e = k" if "status s = Aborted e" for e using r that by blast
    show "rendered s = [0..<k]" if "status s = Aborted e" for e using r that by blast
    show "step engine M s ev = None" if "status s = Aborted e" for e ev
      using that by (rule step_Aborted)
    show "\<exists>ev s'. step engine M s ev = Some s'" if "0 < N \<and> status s = Running"
      using progress [OF inv _ _ nf] that by blast
    show "length evs \<le> 2 * M + 1"
      using run_events_weight [OF run] inv_weight_bound(1) [OF inv]
      by (simp add: init_def split: if_splits)
  next
    assume "0 < N"
    from run_to_end [OF this init_inv, of engine M] obtain evs s where
      run: "run_events engine M (init N) evs = Some s" "finished M s \<or> status s \<noteq> Running"
      by blast
    note r = reach [OF reachable_inv [OF run(1)]]
    then obtain e where "status s = Aborted e" using run(2) by (cases "status s") auto
    then have "status s = Aborted k \<and> rendered s = [0..<k]" using r by blast
    then show "\<exists>evs s. run_events engine M (init N) evs = Some s \<and> status s = Aborted k \<and>
               rendered s = [0..<k]"
      using run(1) by blast
  qed
qed

theorem fail_fast_aborts_at_first_failure_witness:
  "(4::nat) < 10 \<and>
   (\<lambda>k. if k = 4 then InferenceFailure else Result) (4::nat) = InferenceFailure \<and>
   list_all (\<lambda>j. (\<lambda>k. if k = (4::nat) then InferenceFailure else Result) j = Result) [0..<4] \<and>
   run_events (\<lambda>k. if k = 4 then InferenceFailure else Result) 10 (init 3)
     [Submit 0, Submit 1, Submit 2, Complete 2, Complete 0, Complete 1, Submit 0, Submit 1,
      Submit 2, Complete 1, Complete 2, Complete 0]
   = Some \<lparr>slots = [None, None, None], next_frame = 6, cursor = 4, buffer = [4, 5],
            rendered = [0, 1, 2, 3], completed = 6, status = Aborted 4\<rparr> \<and>
   rendered \<lparr>slots = [None, None, None], next_frame = 6, cursor = 4, buffer = [4, 5],
            rendered = [0, 1, 2, 3], completed = 6, status = Aborted 4\<rparr> = [0..<4] \<and>
   step (\<lambda>k. if k = 4 then InferenceFailure else Result) 10
     \<lparr>slots = [None, None, None], next_frame = 6, cursor = 4, buffer = [4, 5],
            rendered = [0, 1, 2, 3], completed = 6, status = Aborted 4\<rparr> (Submit 0) = None"
proof -
  have h: "(4::nat) < 10" "(\<lambda>k. if k = 4 then InferenceFailure else Result) (4::nat) = InferenceFailure"
    "\<forall>j<4. (\<lambda>k. if k = (4::nat) then InferenceFailure else Result) j = Result"
    by simp_all
  have a: "status \<lparr>slots = [None, None, None], next_frame = 6, cursor = 4, buffer = [4, 5],
            rendered = [0, 1, 2, 3], completed = 6, status = Aborted 4\<rparr> = Aborted 4"
    by simp
  have l: "list_all (\<lambda>j. (\<lambda>k. if k = (4::nat) then InferenceFailure else Result) j = Result) [0..<4]"
    by (simp add: list_all_iff)
  note t = fail_fast_aborts_at_first_failure [OF h, of 3]
  have r: "rendered \<lparr>slots = [None, None, None], next_frame = 6, cursor = 4, buffer = [4, 5],
            rendered = [0, 1, 2, 3], completed = 6, status = Aborted 4\<rparr> = [0..<4]"
    using t example_run_abort a by blast
  have n: "step (\<lambda>k. if k = 4 then InferenceFailure else Result) 10
     \<lparr>slots = [None, None, None], next_frame = 6, cursor = 4, buffer = [4, 5],
            rendered = [0, 1, 2, 3], completed = 6, status = Aborted 4\<rparr> (Submit 0) = None"
    using t example_run_abort a by blast
  show ?thesis using h(1,2) l example_run_abort r n by blast
qed

text \<open>
  C7. A run over an empty frame sequence makes no render call: its only state is the
  initial one, which is terminated. The reported throughput is 0 frames per second, or
  "undefined" when no time has elapsed; either way a report is produced, there is no
  division by zero.
\<close>

theorem empty_sequence_renders_nothing:
  "\<forall>evs s. run_events engine 0 (init N) evs = Some s \<longrightarrow>
      evs = [] \<and> s = init N \<and> rendered s = [] \<and> finished 0 s \<and> completed s = 0 \<and>
      throughput_report (completed s) elapsed = (if elapsed = 0 then Undefined else Fps 0)"
proof (intro allI impI)
  fix evs s
  assume run: "run_events engine 0 (init N) evs = Some s"
  have none: "step engine 0 (init N) ev = None" for ev
  proof (cases ev)
    case (Submit sl)
    then show ?thesis by (simp add: step_def init_def)
  next
    case (Complete sl)
    then show ?thesis by (simp add: step_Complete init_def)
  qed
  have e: "evs = []" using run none by (cases evs) simp_all
  then have s: "s = init N" using run by simp
  show "evs = [] \<and> s = init N \<and> rendered s = [] \<and> finished 0 s \<and> completed s = 0 \<and>
      throughput_report (completed s) elapsed = (if elapsed = 0 then Undefined else Fps 0)"
    using e unfolding s
    by (simp add: init_def finished_def occupied_replicate_None throughput_report_def)
qed

theorem empty_sequence_renders_nothing_witness:
  "run_events (\<lambda>k. Result) 0 (init 2) [] = Some (init 2) \<and> rendered (init 2) = [] \<and>
   finished 0 (init 2) \<and> throughput_report (completed (init 2)) 2 = Fps 0 \<and>
   throughput_report (completed (init 2)) 0 = Undefined"
proof -
  have r: "run_events (\<lambda>k. Result) 0 (init 2) [] = Some (init 2)" by simp
  note a = empty_sequence_renders_nothing [of "\<lambda>k. Result" 2 2, rule_format, OF r]
  note b = empty_sequence_renders_nothing [of "\<lambda>k. Result" 2 0, rule_format, OF r]
  have "throughput_report (completed (init 2)) 2 = (if (2::real) = 0 then Undefined else Fps 0)"
    using a by blast
  then have a': "throughput_report (completed (init 2)) 2 = Fps 0" by simp
  have "throughput_report (completed (init 2)) 0 = (if (0::real) = 0 then Undefined else Fps 0)"
    using b by blast
  then have b': "throughput_report (completed (init 2)) 0 = Undefined" by simp
  have c: "rendered (init 2) = []" "finished 0 (init 2)" using a by blast+
  show ?thesis using r a' b' c by blast
qed

end
